theory Spec2Isabelle
  imports Complex_Main "HOL-Library.Multiset"
begin

section \<open>Cards (utils/blackjack_deck.py)\<close>

text \<open>
  A card is a suit and a rank. The ranks are the thirteen entries of \<open>Deck.RANKS\<close>, the
  suits the four entries of \<open>Deck.SUITS\<close>; the shoe is the only place where the program
  builds cards.
\<close>

datatype suit = Spades | Hearts | Diamonds | Clubs

datatype rank = Ace | Two | Three | Four | Five | Six | Seven | Eight | Nine | Ten
  | Jack | Queen | King

record card =
  suit :: suit
  rank :: rank

text \<open>Constants of config/settings.py.\<close>

definition BLACKJACK_VALUE :: int where
  "BLACKJACK_VALUE = 21"

definition BLACKJACK_ACE_HIGH_VALUE :: int where
  "BLACKJACK_ACE_HIGH_VALUE = 11"

definition BLACKJACK_ACE_LOW_VALUE :: int where
  "BLACKJACK_ACE_LOW_VALUE = 1"

definition BLACKJACK_FACE_CARD_VALUE :: int where
  "BLACKJACK_FACE_CARD_VALUE = 10"

definition BLACKJACK_INITIAL_CARDS_COUNT :: nat where
  "BLACKJACK_INITIAL_CARDS_COUNT = 2"

definition BLACKJACK_NUM_DECKS_IN_SHOE :: nat where
  "BLACKJACK_NUM_DECKS_IN_SHOE = 2"

lemmas settings_defs = BLACKJACK_VALUE_def BLACKJACK_ACE_HIGH_VALUE_def
  BLACKJACK_ACE_LOW_VALUE_def BLACKJACK_FACE_CARD_VALUE_def
  BLACKJACK_INITIAL_CARDS_COUNT_def BLACKJACK_NUM_DECKS_IN_SHOE_def

section \<open>Hand values (utils/blackjack_helpers.py)\<close>

text \<open>\<open>int(card.rank)\<close> on the ranks that are written as numbers.\<close>

fun int_of_rank :: "rank \<Rightarrow> int" where
  "int_of_rank Two = 2"
| "int_of_rank Three = 3"
| "int_of_rank Four = 4"
| "int_of_rank Five = 5"
| "int_of_rank Six = 6"
| "int_of_rank Seven = 7"
| "int_of_rank Eight = 8"
| "int_of_rank Nine = 9"
| "int_of_rank Ten = 10"
| "int_of_rank r = 0"

text \<open>
  The body of the \<open>for\<close> loop of \<open>calculate_hand_value\<close>, on the pair
  \<open>(total, aces)\<close> (written \<open>tot\<close> here).
\<close>

fun count_card :: "int \<times> int \<Rightarrow> card \<Rightarrow> int \<times> int" where
  "count_card (tot, aces) c =
     (if rank c = Ace then (tot + BLACKJACK_ACE_HIGH_VALUE, aces + 1)
      else if rank c \<in> {Jack, Queen, King} then (tot + BLACKJACK_FACE_CARD_VALUE, aces)
      else (tot + int_of_rank (rank c), aces))"

text \<open>The \<open>while\<close> loop of \<open>calculate_hand_value\<close>: one Ace goes from 11 to 1 per round.\<close>

function adjust_aces :: "int \<Rightarrow> int \<Rightarrow> int" where
  "adjust_aces tot aces =
     (if tot > BLACKJACK_VALUE \<and> aces > 0
      then adjust_aces (tot - (BLACKJACK_ACE_HIGH_VALUE - BLACKJACK_ACE_LOW_VALUE)) (aces - 1)
      else tot)"
  by pat_completeness auto
termination
  by (relation "measure (\<lambda>(tot, aces). nat aces)") auto

declare adjust_aces.simps [simp del]

definition calculate_hand_value :: "card list \<Rightarrow> int" where
  "calculate_hand_value cards =
     (if cards = [] then 0
      else case foldl count_card (0, 0) cards of (tot, aces) \<Rightarrow> adjust_aces tot aces)"

definition is_blackjack :: "card list \<Rightarrow> bool" where
  "is_blackjack cards =
     (if length cards \<noteq> BLACKJACK_INITIAL_CARDS_COUNT then False
      else calculate_hand_value cards = BLACKJACK_VALUE)"

definition is_bust :: "card list \<Rightarrow> bool" where
  "is_bust cards = (calculate_hand_value cards > BLACKJACK_VALUE)"

definition is_soft_hand :: "card list \<Rightarrow> bool" where
  "is_soft_hand cards =
     (let has_ace = list_ex (\<lambda>c. rank c = Ace) cards in
      if \<not> has_ace then False
      else
        let total_without_ace =
              sum_list (map (\<lambda>c. if rank c \<in> {Jack, Queen, King} then BLACKJACK_FACE_CARD_VALUE
                                  else if rank c = Ace then BLACKJACK_ACE_LOW_VALUE
                                  else int_of_rank (rank c)) cards)
        in total_without_ace + (BLACKJACK_ACE_HIGH_VALUE - BLACKJACK_ACE_LOW_VALUE)
             \<le> BLACKJACK_VALUE)"

definition can_split :: "card list \<Rightarrow> bool" where
  "can_split cards =
     (if length cards \<noteq> BLACKJACK_INITIAL_CARDS_COUNT then False
      else rank (cards ! 0) = rank (cards ! 1))"

text \<open>
  The totals a hand can be counted at: every Ace is given 1 or 11 independently, every
  other card its face value. This is the reading of the hand-value rule that the
  algorithm is compared with.
\<close>

fun possible_totals :: "card list \<Rightarrow> int list" where
  "possible_totals [] = [0]"
| "possible_totals (c # cs) =
     (if rank c = Ace
      then map (\<lambda>t. t + 1) (possible_totals cs) @ map (\<lambda>t. t + 11) (possible_totals cs)
      else if rank c \<in> {Jack, Queen, King} then map (\<lambda>t. t + 10) (possible_totals cs)
      else map (\<lambda>t. t + int_of_rank (rank c)) (possible_totals cs))"

text \<open>The number of Aces of a hand, and its total with every Ace at 11.\<close>

definition num_aces :: "card list \<Rightarrow> int" where
  "num_aces cards = int (length (filter (\<lambda>c. rank c = Ace) cards))"

definition high_total :: "card list \<Rightarrow> int" where
  "high_total cards =
     sum_list (map (\<lambda>c. if rank c = Ace then 11
                         else if rank c \<in> {Jack, Queen, King} then 10
                         else int_of_rank (rank c)) cards)"

section \<open>The shoe (utils/blackjack_deck.py)\<close>

datatype error = IndexError

text \<open>
  \<open>Deck\<close>: the seed and the list of cards, the top of the shoe being the end of the
  list (\<open>draw\<close> is \<open>list.pop()\<close>).
\<close>

record deck =
  deck_seed :: int
  deck_cards :: "card list"

definition SUITS :: "suit list" where
  "SUITS = [Spades, Hearts, Diamonds, Clubs]"

definition RANKS :: "rank list" where
  "RANKS = [Ace, Two, Three, Four, Five, Six, Seven, Eight, Nine, Ten, Jack, Queen, King]"

definition initialize_decks :: "card list" where
  "initialize_decks =
     concat (replicate BLACKJACK_NUM_DECKS_IN_SHOE
       (concat (map (\<lambda>s. map (\<lambda>r. \<lparr>suit = s, rank = r\<rparr>) RANKS) SUITS)))"

text \<open>
  The module \<open>random\<close> of the standard library is not part of the repository. Its
  hidden generator is a state of type \<open>'r\<close>, passed explicitly, and its primitives
  are the fields of a record: \<open>random_seed a\<close> is the state that \<open>random.seed(a)\<close>
  sets, \<open>random_randbelow n q\<close> is the number that the generator gives for
  \<open>_randbelow(n)\<close> in the state \<open>q\<close>, with the state it leaves, and
  \<open>random_shuffle q xs\<close> is the list that \<open>random.shuffle\<close> makes of \<open>xs\<close>
  in the state \<open>q\<close>, with the state it leaves.
\<close>

record 'r Random =
  random_seed :: "int \<Rightarrow> 'r"
  random_randbelow :: "nat \<Rightarrow> 'r \<Rightarrow> nat \<times> 'r"
  random_shuffle :: "'r \<Rightarrow> card list \<Rightarrow> card list \<times> 'r"

text \<open>
  \<open>random.randint(a, b)\<close> is \<open>a + _randbelow(b - a + 1)\<close>, a number \<open>N\<close> with
  \<open>a \<le> N \<le> b\<close>: the number of the generator is taken below \<open>b - a + 1\<close>.
\<close>

definition randint :: "'r Random \<Rightarrow> int \<Rightarrow> int \<Rightarrow> 'r \<Rightarrow> int \<times> 'r" where
  "randint R a b q =
     (case random_randbelow R (nat (b - a + 1)) q of
        (k, q') \<Rightarrow> (a + int (k mod nat (b - a + 1)), q'))"

text \<open>
  \<open>Deck._shuffle\<close> is \<open>random.seed(self.seed); random.shuffle(self.cards)\<close>: the
  generator is set from the seed of the shoe, whatever its state was, and the cards are
  shuffled in that state. It gives the shoe and the state that the generator is left in.
\<close>

definition shuffle :: "'r Random \<Rightarrow> deck \<Rightarrow> deck \<times> 'r" where
  "shuffle R d =
     (case random_shuffle R (random_seed R (deck_seed d)) (deck_cards d) of
        (cs, q) \<Rightarrow> (d\<lparr>deck_cards := cs\<rparr>, q))"

text \<open>
  \<open>Deck.__init__\<close>, from the state \<open>q\<close> of the generator to the shoe and the state
  left. The argument \<open>seed\<close> is \<open>None\<close> or an integer, and
  \<open>seed or random.randint(1, 1000000)\<close> draws the random number for both \<open>None\<close>
  and \<open>0\<close>.
\<close>

definition Deck_init :: "'r Random \<Rightarrow> int option \<Rightarrow> 'r \<Rightarrow> deck \<times> 'r" where
  "Deck_init R seed q =
     (case (case seed of
              None \<Rightarrow> randint R 1 1000000 q
            | Some s \<Rightarrow> if s = 0 then randint R 1 1000000 q else (s, q)) of
        (sd, q') \<Rightarrow> shuffle R \<lparr>deck_seed = sd, deck_cards = initialize_decks\<rparr>)"

definition draw :: "deck \<Rightarrow> error + card \<times> deck" where
  "draw d =
     (if deck_cards d = [] then Inl IndexError
      else Inr (last (deck_cards d), d\<lparr>deck_cards := butlast (deck_cards d)\<rparr>))"

text \<open>Drawing \<open>n\<close> cards in a row: the cards in the order drawn, or the error.\<close>

fun draw_many :: "nat \<Rightarrow> deck \<Rightarrow> error + card list \<times> deck" where
  "draw_many 0 d = Inr ([], d)"
| "draw_many (Suc n) d =
     (case draw d of
        Inl e \<Rightarrow> Inl e
      | Inr (c, d') \<Rightarrow>
          (case draw_many n d' of
             Inl e \<Rightarrow> Inl e
           | Inr (cs, d'') \<Rightarrow> Inr (c # cs, d'')))"

text \<open>The cards that \<open>n\<close> draws give, if the shoe holds that many.\<close>

definition drawn_cards :: "nat \<Rightarrow> deck \<Rightarrow> card list option" where
  "drawn_cards n d = (case draw_many n d of Inl e \<Rightarrow> None | Inr (cs, d') \<Rightarrow> Some cs)"

section \<open>The game state (utils/blackjack_game.py)\<close>

datatype GamePhase = LOBBY | DEALING | PLAYING | DEALER_TURN | RESULTS | ENDED

datatype HandStatus = ACTIVE | STAND | BUST | BLACKJACK | SPLIT_ACES | SURRENDER

record PlayerHand =
  cards :: "card list"
  status :: HandStatus
  is_split :: bool
  is_split_aces :: bool

record Player =
  user_id :: int
  username :: string
  hands :: "PlayerHand list"
  is_dealer :: bool
  current_hand_index :: nat

record BlackjackGame =
  channel_id :: int
  dealer_id :: int
  max_players :: int
  timeout :: int
  use_emojis :: bool
  dealer :: Player
  players :: "Player list"
  deck :: deck
  phase :: GamePhase
  current_turn_index :: nat

text \<open>
  A call either returns a result or raises; in both cases the game is left in some
  state, the one reached when the exception was raised included.
\<close>

datatype 'a outcome = Returned 'a BlackjackGame | Raised error BlackjackGame

fun state_of :: "'a outcome \<Rightarrow> BlackjackGame" where
  "state_of (Returned a g) = g"
| "state_of (Raised e g) = g"

text \<open>
  The participants are objects that the methods change in place. \<open>seat\<close> says which
  object a variable such as \<open>current_player\<close> refers to: the dealer, or the player at an
  index of \<open>players\<close>. Every \<open>Player\<close> and \<open>PlayerHand\<close> is built where it is stored,
  so no two places share one.
\<close>

datatype seat = DealerSeat | PlayerSeat nat

fun player_at :: "BlackjackGame \<Rightarrow> seat \<Rightarrow> Player" where
  "player_at g DealerSeat = dealer g"
| "player_at g (PlayerSeat i) = players g ! i"

fun update_player :: "seat \<Rightarrow> (Player \<Rightarrow> Player) \<Rightarrow> BlackjackGame \<Rightarrow> BlackjackGame" where
  "update_player DealerSeat f g = g\<lparr>dealer := f (dealer g)\<rparr>"
| "update_player (PlayerSeat i) f g = g\<lparr>players := (players g)[i := f (players g ! i)]\<rparr>"

definition update_hand :: "nat \<Rightarrow> (PlayerHand \<Rightarrow> PlayerHand) \<Rightarrow> Player \<Rightarrow> Player" where
  "update_hand i f p = p\<lparr>hands := (hands p)[i := f (hands p ! i)]\<rparr>"

text \<open>Changing the hand that \<open>get_current_hand\<close> returned for the participant at a seat.\<close>

definition update_current_hand ::
  "seat \<Rightarrow> (PlayerHand \<Rightarrow> PlayerHand) \<Rightarrow> BlackjackGame \<Rightarrow> BlackjackGame" where
  "update_current_hand s f g =
     update_player s (\<lambda>p. update_hand (current_hand_index p) f p) g"

definition new_hand :: PlayerHand where
  "new_hand = \<lparr>cards = [], status = ACTIVE, is_split = False, is_split_aces = False\<rparr>"

definition new_player :: "int \<Rightarrow> string \<Rightarrow> bool \<Rightarrow> Player" where
  "new_player uid uname dealer_flag =
     \<lparr>user_id = uid, username = uname, hands = [new_hand], is_dealer = dealer_flag,
      current_hand_index = 0\<rparr>"

text \<open>\<open>BlackjackGame.__init__\<close>; \<open>d\<close> is the shoe that \<open>Deck()\<close> builds.\<close>

definition BlackjackGame_init ::
  "int \<Rightarrow> int \<Rightarrow> string \<Rightarrow> int \<Rightarrow> int \<Rightarrow> deck \<Rightarrow> BlackjackGame" where
  "BlackjackGame_init channel host host_name maxp tmo d =
     \<lparr>channel_id = channel, dealer_id = host, max_players = maxp, timeout = tmo,
      use_emojis = True, dealer = new_player host host_name True, players = [],
      deck = d, phase = LOBBY, current_turn_index = 0\<rparr>"

text \<open>\<open>Player.get_current_hand\<close>: indexing outside the list raises.\<close>

definition get_current_hand :: "Player \<Rightarrow> error + PlayerHand" where
  "get_current_hand p =
     (if current_hand_index p < length (hands p) then Inr (hands p ! current_hand_index p)
      else Inl IndexError)"

definition all_hands_finished :: "Player \<Rightarrow> bool" where
  "all_hands_finished p = list_all (\<lambda>hand. status hand \<noteq> ACTIVE) (hands p)"

subsection \<open>Lobby\<close>

definition add_player :: "int \<Rightarrow> string \<Rightarrow> BlackjackGame \<Rightarrow> bool outcome" where
  "add_player uid uname g =
     (if phase g \<noteq> LOBBY then Returned False g
      else if int (length (players g)) \<ge> max_players g then Returned False g
      else if list_ex (\<lambda>p. user_id p = uid) (players g) then Returned False g
      else if uid = dealer_id g then Returned False g
      else Returned True (g\<lparr>players := players g @ [new_player uid uname False]\<rparr>))"

definition remove_player :: "int \<Rightarrow> BlackjackGame \<Rightarrow> bool outcome" where
  "remove_player uid g =
     (if phase g \<noteq> LOBBY then Returned False g
      else Returned True (g\<lparr>players := filter (\<lambda>p. user_id p \<noteq> uid) (players g)\<rparr>))"

definition toggle_style :: "BlackjackGame \<Rightarrow> bool outcome" where
  "toggle_style g = Returned (\<not> use_emojis g) (g\<lparr>use_emojis := \<not> use_emojis g\<rparr>)"

subsection \<open>Turn management\<close>

definition get_current_player :: "BlackjackGame \<Rightarrow> seat option" where
  "get_current_player g =
     (if phase g = DEALER_TURN then Some DealerSeat
      else if phase g \<noteq> PLAYING then None
      else if current_turn_index g < length (players g)
        then Some (PlayerSeat (current_turn_index g))
      else None)"

definition check_all_players_busted_or_surrendered :: "BlackjackGame \<Rightarrow> bool" where
  "check_all_players_busted_or_surrendered g =
     (if players g = [] then False
      else list_all (\<lambda>player.
             list_all (\<lambda>hand. status hand \<notin> {ACTIVE, STAND, BLACKJACK, SPLIT_ACES})
               (hands player))
           (players g))"

text \<open>
  \<open>_check_dealer_auto_stand\<close>. Its return value is used nowhere; only the state counts.
\<close>

definition check_dealer_auto_stand :: "BlackjackGame \<Rightarrow> unit outcome" where
  "check_dealer_auto_stand g =
     (if phase g \<noteq> DEALER_TURN then Returned () g
      else if hands (dealer g) = [] then Raised IndexError g
      else
        let dealer_hand = hands (dealer g) ! 0;
            hand_value = calculate_hand_value (cards dealer_hand);
            is_soft = is_soft_hand (cards dealer_hand)
        in if hand_value < 17 then Returned () g
           else if hand_value = 17 \<and> is_soft then Returned () g
           else Returned ()
                  (g\<lparr>dealer := update_hand 0 (\<lambda>h. h\<lparr>status := STAND\<rparr>) (dealer g),
                     phase := RESULTS\<rparr>))"

text \<open>
  The loop that skips the seats whose hands are all finished, from index \<open>i\<close> on; it
  returns the new \<open>current_turn_index\<close>.
\<close>

function skip_finished :: "Player list \<Rightarrow> nat \<Rightarrow> nat" where
  "skip_finished ps i =
     (if i < length ps \<and> all_hands_finished (ps ! i) then skip_finished ps (i + 1) else i)"
  by pat_completeness auto
termination
  by (relation "measure (\<lambda>(ps, i). length ps - i)") auto

declare skip_finished.simps [simp del]

text \<open>
  The part of \<open>_advance_turn\<close> after the block that moves on to the player's next hand:
  the dealer's end, the check that every player is out, the move to the next seat.
\<close>

definition advance_to_next_player :: "BlackjackGame \<Rightarrow> unit outcome" where
  "advance_to_next_player g =
     (let current_player = get_current_player g;
          dealer_done =
            (case current_player of
               None \<Rightarrow> Inr False
             | Some s \<Rightarrow>
                 if is_dealer (player_at g s)
                 then (case get_current_hand (player_at g s) of
                         Inl e \<Rightarrow> Inl e
                       | Inr h \<Rightarrow> Inr (status h \<in> {BUST, STAND}))
                 else Inr False)
      in case dealer_done of
           Inl e \<Rightarrow> Raised e g
         | Inr True \<Rightarrow> Returned () (g\<lparr>phase := RESULTS\<rparr>)
         | Inr False \<Rightarrow>
             if check_all_players_busted_or_surrendered g
             then Returned () (g\<lparr>phase := RESULTS\<rparr>)
             else
               let g1 = g\<lparr>current_turn_index :=
                          skip_finished (players g) (current_turn_index g + 1)\<rparr>
               in if current_turn_index g1 \<ge> length (players g1)
                  then check_dealer_auto_stand (g1\<lparr>phase := DEALER_TURN\<rparr>)
                  else Returned () g1)"

text \<open>
  \<open>_advance_turn\<close>. The first block moves the current participant to the next hand and
  deals the card that a split left out; for a hand of split Aces it marks the hand and
  calls itself again.
\<close>

function advance_turn :: "BlackjackGame \<Rightarrow> unit outcome" where
  "advance_turn g =
     (case get_current_player g of
        None \<Rightarrow> advance_to_next_player g
      | Some s \<Rightarrow>
          let current_player = player_at g s in
          if \<not> all_hands_finished current_player
             \<and> int (current_hand_index current_player) < int (length (hands current_player)) - 1
          then
            let g1 = update_player s (\<lambda>p. p\<lparr>current_hand_index := current_hand_index p + 1\<rparr>) g;
                current_hand = hands current_player ! (current_hand_index current_player + 1)
            in if length (cards current_hand) = 1
               then (case draw (deck g1) of
                       Inl e \<Rightarrow> Raised e g1
                     | Inr (new_card, d) \<Rightarrow>
                         let g2 = update_current_hand s (\<lambda>h. h\<lparr>cards := cards h @ [new_card]\<rparr>)
                                    (g1\<lparr>deck := d\<rparr>)
                         in if is_split_aces current_hand
                            then advance_turn
                                   (update_current_hand s (\<lambda>h. h\<lparr>status := SPLIT_ACES\<rparr>) g2)
                            else Returned () g2)
               else Returned () g1
          else advance_to_next_player g)"
  by pat_completeness auto

termination advance_turn
  apply (relation "measure (\<lambda>g. case get_current_player g of None \<Rightarrow> 0
     | Some s \<Rightarrow> length (hands (player_at g s)) - current_hand_index (player_at g s))")
   apply simp
  subgoal for g s x xa y
    apply (cases s)
     apply (auto simp: get_current_player_def update_current_hand_def update_hand_def
        split: if_splits)
    done
  done

declare advance_turn.simps [simp del]

text \<open>Running the next statement in the state a call returned in; a raise ends the method.\<close>

fun and_then :: "'a outcome \<Rightarrow> (BlackjackGame \<Rightarrow> 'b outcome) \<Rightarrow> 'b outcome" where
  "and_then (Returned a g) f = f g"
| "and_then (Raised e g) f = Raised e g"

subsection \<open>The dealer's rule\<close>

definition can_dealer_hit :: "BlackjackGame \<Rightarrow> error + bool" where
  "can_dealer_hit g =
     (if hands (dealer g) = [] then Inl IndexError
      else if cards (hands (dealer g) ! 0) = [] then Inr False
      else
        let hand = cards (hands (dealer g) ! 0);
            val = calculate_hand_value hand;
            is_soft = is_soft_hand hand
        in if val < 17 then Inr True
           else if val = 17 \<and> is_soft then Inr True
           else Inr False)"

definition can_dealer_stand :: "BlackjackGame \<Rightarrow> error + bool" where
  "can_dealer_stand g = (case can_dealer_hit g of Inl e \<Rightarrow> Inl e | Inr b \<Rightarrow> Inr (\<not> b))"

subsection \<open>Player actions\<close>

definition hit :: "int \<Rightarrow> BlackjackGame \<Rightarrow> card option outcome" where
  "hit uid g =
     (case get_current_player g of
        None \<Rightarrow> Returned None g
      | Some s \<Rightarrow>
          let current_player = player_at g s in
          if user_id current_player \<noteq> uid then Returned None g
          else
            case (if is_dealer current_player then can_dealer_stand g else Inr False) of
              Inl e \<Rightarrow> Raised e g
            | Inr True \<Rightarrow> Returned None g
            | Inr False \<Rightarrow>
                (case get_current_hand current_player of
                   Inl e \<Rightarrow> Raised e g
                 | Inr current_hand \<Rightarrow>
                     if status current_hand \<noteq> ACTIVE then Returned None g
                     else
                       (case draw (deck g) of
                          Inl e \<Rightarrow> Raised e g
                        | Inr (c, d) \<Rightarrow>
                            let g1 = update_current_hand s (\<lambda>h. h\<lparr>cards := cards h @ [c]\<rparr>)
                                       (g\<lparr>deck := d\<rparr>)
                            in if is_bust (cards current_hand @ [c])
                               then and_then
                                      (advance_turn
                                         (update_current_hand s (\<lambda>h. h\<lparr>status := BUST\<rparr>) g1))
                                      (Returned (Some c))
                               else if is_dealer current_player
                               then (case can_dealer_stand g1 of
                                       Inl e \<Rightarrow> Raised e g1
                                     | Inr True \<Rightarrow>
                                         Returned (Some c)
                                           ((update_current_hand s (\<lambda>h. h\<lparr>status := STAND\<rparr>) g1)
                                              \<lparr>phase := RESULTS\<rparr>)
                                     | Inr False \<Rightarrow> Returned (Some c) g1)
                               else Returned (Some c) g1)))"

definition stand :: "int \<Rightarrow> BlackjackGame \<Rightarrow> bool outcome" where
  "stand uid g =
     (case get_current_player g of
        None \<Rightarrow> Returned False g
      | Some s \<Rightarrow>
          let current_player = player_at g s in
          if user_id current_player \<noteq> uid then Returned False g
          else
            case (if is_dealer current_player then can_dealer_stand g else Inr True) of
              Inl e \<Rightarrow> Raised e g
            | Inr False \<Rightarrow> Returned False g
            | Inr True \<Rightarrow>
                (case get_current_hand current_player of
                   Inl e \<Rightarrow> Raised e g
                 | Inr current_hand \<Rightarrow>
                     if status current_hand \<noteq> ACTIVE then Returned False g
                     else
                       let g1 = update_current_hand s (\<lambda>h. h\<lparr>status := STAND\<rparr>) g
                       in if is_dealer current_player
                          then Returned True (g1\<lparr>phase := RESULTS\<rparr>)
                          else and_then (advance_turn g1) (Returned True)))"

definition double_down :: "int \<Rightarrow> BlackjackGame \<Rightarrow> card option outcome" where
  "double_down uid g =
     (case get_current_player g of
        None \<Rightarrow> Returned None g
      | Some s \<Rightarrow>
          let current_player = player_at g s in
          if user_id current_player \<noteq> uid then Returned None g
          else if is_dealer current_player then Returned None g
          else
            (case get_current_hand current_player of
               Inl e \<Rightarrow> Raised e g
             | Inr current_hand \<Rightarrow>
                 if length (cards current_hand) \<noteq> BLACKJACK_INITIAL_CARDS_COUNT
                 then Returned None g
                 else if status current_hand \<noteq> ACTIVE then Returned None g
                 else
                   (case draw (deck g) of
                      Inl e \<Rightarrow> Raised e g
                    | Inr (c, d) \<Rightarrow>
                        let g1 = update_current_hand s (\<lambda>h. h\<lparr>cards := cards h @ [c]\<rparr>)
                                   (g\<lparr>deck := d\<rparr>);
                            g2 = (if is_bust (cards current_hand @ [c])
                                  then update_current_hand s (\<lambda>h. h\<lparr>status := BUST\<rparr>) g1
                                  else update_current_hand s (\<lambda>h. h\<lparr>status := STAND\<rparr>) g1)
                        in and_then (advance_turn g2) (Returned (Some c)))))"

text \<open>\<open>list.insert(i, x)\<close> for an index that is not negative.\<close>

definition list_insert :: "nat \<Rightarrow> 'a \<Rightarrow> 'a list \<Rightarrow> 'a list" where
  "list_insert i x xs = take i xs @ [x] @ drop i xs"

definition split :: "int \<Rightarrow> BlackjackGame \<Rightarrow> bool outcome" where
  "split uid g =
     (case get_current_player g of
        None \<Rightarrow> Returned False g
      | Some s \<Rightarrow>
          let current_player = player_at g s in
          if user_id current_player \<noteq> uid then Returned False g
          else if is_dealer current_player then Returned False g
          else
            (case get_current_hand current_player of
               Inl e \<Rightarrow> Raised e g
             | Inr current_hand \<Rightarrow>
                 if \<not> can_split (cards current_hand) then Returned False g
                 else if status current_hand \<noteq> ACTIVE then Returned False g
                 else
                   let card1 = cards current_hand ! 0;
                       card2 = cards current_hand ! 1;
                       is_aces = (rank card1 = Ace);
                       hand1 = \<lparr>cards = [card1], status = ACTIVE, is_split = True,
                                is_split_aces = is_aces\<rparr>;
                       hand2 = \<lparr>cards = [card2], status = ACTIVE, is_split = True,
                                is_split_aces = is_aces\<rparr>
                   in case draw (deck g) of
                        Inl e \<Rightarrow> Raised e g
                      | Inr (new_card1, d) \<Rightarrow>
                          let i = current_hand_index current_player;
                              g1 = update_player s
                                     (\<lambda>p. p\<lparr>hands :=
                                        list_insert (i + 1) hand2
                                          ((hands p)[i := hand1\<lparr>cards := [card1, new_card1]\<rparr>])\<rparr>)
                                     (g\<lparr>deck := d\<rparr>)
                          in if is_aces
                             then
                               let g2 = update_player s
                                          (update_hand i (\<lambda>h. h\<lparr>status := SPLIT_ACES\<rparr>)) g1
                               in case draw (deck g2) of
                                    Inl e \<Rightarrow> Raised e g2
                                  | Inr (new_card2, d2) \<Rightarrow>
                                      let g3 = update_player s
                                                 (update_hand (i + 1)
                                                    (\<lambda>h. h\<lparr>cards := cards h @ [new_card2],
                                                            status := SPLIT_ACES\<rparr>))
                                                 (g2\<lparr>deck := d2\<rparr>)
                                      in and_then (advance_turn g3) (Returned True)
                             else Returned True g1))"

definition surrender :: "int \<Rightarrow> BlackjackGame \<Rightarrow> bool outcome" where
  "surrender uid g =
     (case get_current_player g of
        None \<Rightarrow> Returned False g
      | Some s \<Rightarrow>
          let current_player = player_at g s in
          if user_id current_player \<noteq> uid then Returned False g
          else if is_dealer current_player then Returned False g
          else
            (case get_current_hand current_player of
               Inl e \<Rightarrow> Raised e g
             | Inr current_hand \<Rightarrow>
                 if length (cards current_hand) \<noteq> 2 \<or> is_split current_hand
                 then Returned False g
                 else if status current_hand \<noteq> ACTIVE then Returned False g
                 else and_then
                        (advance_turn
                           (update_current_hand s (\<lambda>h. h\<lparr>status := SURRENDER\<rparr>) g))
                        (Returned True)))"

subsection \<open>Starting the game\<close>

text \<open>
  \<open>card = self.deck.draw(); player.hands[0].cards.append(card)\<close> for the participant at
  a seat.
\<close>

definition deal_card_to :: "seat \<Rightarrow> BlackjackGame \<Rightarrow> unit outcome" where
  "deal_card_to s g =
     (case draw (deck g) of
        Inl e \<Rightarrow> Raised e g
      | Inr (c, d) \<Rightarrow>
          let g1 = g\<lparr>deck := d\<rparr>
          in if hands (player_at g1 s) = [] then Raised IndexError g1
             else Returned ()
                    (update_player s (update_hand 0 (\<lambda>h. h\<lparr>cards := cards h @ [c]\<rparr>)) g1))"

text \<open>One \<open>for player in self.players\<close> loop of the deal, over the indices left.\<close>

fun deal_round :: "nat list \<Rightarrow> BlackjackGame \<Rightarrow> unit outcome" where
  "deal_round [] g = Returned () g"
| "deal_round (i # rest) g = and_then (deal_card_to (PlayerSeat i) g) (deal_round rest)"

definition deal_initial_cards :: "BlackjackGame \<Rightarrow> unit outcome" where
  "deal_initial_cards g =
     and_then (deal_round [0..<length (players g)] g) (\<lambda>g1.
     and_then (deal_card_to DealerSeat g1) (\<lambda>g2.
     and_then (deal_round [0..<length (players g2)] g2) (\<lambda>g3.
     deal_card_to DealerSeat g3)))"

text \<open>
  \<open>start_game\<close>. After a deal that returned, every participant has a first hand, so
  \<open>hands[0]\<close> does not raise in the checks for a natural 21.
\<close>

definition mark_blackjack :: "Player \<Rightarrow> Player" where
  "mark_blackjack p =
     (if is_blackjack (cards (hands p ! 0))
      then update_hand 0 (\<lambda>h. h\<lparr>status := BLACKJACK\<rparr>) p
      else p)"

definition start_game :: "BlackjackGame \<Rightarrow> bool outcome" where
  "start_game g =
     (if phase g \<noteq> LOBBY then Returned False g
      else if length (players g) = 0 then Returned False g
      else
        and_then (deal_initial_cards (g\<lparr>phase := DEALING\<rparr>)) (\<lambda>g1.
          if is_blackjack (cards (hands (dealer g1) ! 0))
          then Returned True
                 (g1\<lparr>dealer := update_hand 0 (\<lambda>h. h\<lparr>status := BLACKJACK\<rparr>) (dealer g1),
                     phase := RESULTS\<rparr>)
          else
            let g2 = g1\<lparr>players := map mark_blackjack (players g1)\<rparr>;
                g3 = g2\<lparr>phase := PLAYING,
                        current_turn_index := skip_finished (players g2) 0\<rparr>
            in if current_turn_index g3 \<ge> length (players g3)
               then and_then (check_dealer_auto_stand (g3\<lparr>phase := DEALER_TURN\<rparr>))
                      (Returned True)
               else Returned True g3))"

subsection \<open>Reachable states\<close>

text \<open>
  The states a game object can be in: the constructor's state, and the state any public
  method leaves behind, whether it returned or raised.
\<close>

inductive reachable :: "BlackjackGame \<Rightarrow> bool" where
  init: "reachable (BlackjackGame_init channel host host_name maxp tmo d)"
| add_player: "reachable g \<Longrightarrow> reachable (state_of (add_player uid uname g))"
| remove_player: "reachable g \<Longrightarrow> reachable (state_of (remove_player uid g))"
| toggle_style: "reachable g \<Longrightarrow> reachable (state_of (toggle_style g))"
| start_game: "reachable g \<Longrightarrow> reachable (state_of (start_game g))"
| hit: "reachable g \<Longrightarrow> reachable (state_of (hit uid g))"
| stand: "reachable g \<Longrightarrow> reachable (state_of (stand uid g))"
| double_down: "reachable g \<Longrightarrow> reachable (state_of (double_down uid g))"
| split: "reachable g \<Longrightarrow> reachable (state_of (split uid g))"
| surrender: "reachable g \<Longrightarrow> reachable (state_of (surrender uid g))"

text \<open>
  A seat \<open>i\<close> is behind the turn when the game is past it: while the players are
  moving, the turn index is greater than \<open>i\<close>.
\<close>

definition behind :: "nat \<Rightarrow> BlackjackGame \<Rightarrow> bool" where
  "behind i g \<longleftrightarrow> i < length (players g) \<and> (phase g = PLAYING \<longrightarrow> i < current_turn_index g)"


text \<open>The five moves of a player, and the state a sequence of them leaves behind.\<close>

datatype move = Hit int | Stand int | DoubleDown int | Split int | Surrender int

fun perform :: "move \<Rightarrow> BlackjackGame \<Rightarrow> BlackjackGame" where
  "perform (Hit uid) g = state_of (hit uid g)"
| "perform (Stand uid) g = state_of (stand uid g)"
| "perform (DoubleDown uid) g = state_of (double_down uid g)"
| "perform (Split uid) g = state_of (split uid g)"
| "perform (Surrender uid) g = state_of (surrender uid g)"

fun perform_all :: "move list \<Rightarrow> BlackjackGame \<Rightarrow> BlackjackGame" where
  "perform_all [] g = g"
| "perform_all (m # ms) g = perform_all ms (perform m g)"


text \<open>What a call returned, if it returned.\<close>

fun returned_value :: "'a outcome \<Rightarrow> 'a option" where
  "returned_value (Returned a g) = Some a"
| "returned_value (Raised e g) = None"

text \<open>
  Who takes part: the ids of the seated players in order, the limit, the host's id and
  the id of the dealer object.
\<close>

definition roster :: "BlackjackGame \<Rightarrow> int list \<times> int \<times> int \<times> int" where
  "roster g = (map user_id (players g), max_players g, dealer_id g, user_id (dealer g))"

text \<open>
  What the lobby keeps true of it: at most as many players as the limit, no id twice,
  the host not among the players, and the dealer object carrying the host's id.
\<close>

definition roster_ok :: "int list \<times> int \<times> int \<times> int \<Rightarrow> bool" where
  "roster_ok r = (case r of (ids, maxp, host, dealer_uid) \<Rightarrow>
     int (length ids) \<le> maxp \<and> distinct ids \<and> host \<notin> set ids \<and> dealer_uid = host)"

section \<open>Example states\<close>

text \<open>
  A game in which the only player (user 7) is to move and holds a pair of Aces; the
  dealer (user 100) shows a ten and holds an eight; four cards are left in the shoe, the
  nine of diamonds on top.
\<close>

definition aces_game :: BlackjackGame where
  "aces_game =
     \<lparr>channel_id = 1, dealer_id = 100, max_players = 3, timeout = 60, use_emojis = True,
      dealer = \<lparr>user_id = 100, username = ''host'',
                hands = [\<lparr>cards = [\<lparr>suit = Clubs, rank = Ten\<rparr>, \<lparr>suit = Diamonds, rank = Eight\<rparr>],
                          status = ACTIVE, is_split = False, is_split_aces = False\<rparr>],
                is_dealer = True, current_hand_index = 0\<rparr>,
      players = [\<lparr>user_id = 7, username = ''ann'',
                  hands = [\<lparr>cards = [\<lparr>suit = Spades, rank = Ace\<rparr>, \<lparr>suit = Hearts, rank = Ace\<rparr>],
                            status = ACTIVE, is_split = False, is_split_aces = False\<rparr>],
                  is_dealer = False, current_hand_index = 0\<rparr>],
      deck = \<lparr>deck_seed = 1,
               deck_cards = [\<lparr>suit = Spades, rank = Five\<rparr>, \<lparr>suit = Hearts, rank = Six\<rparr>,
                             \<lparr>suit = Clubs, rank = King\<rparr>, \<lparr>suit = Diamonds, rank = Nine\<rparr>]\<rparr>,
      phase = PLAYING, current_turn_index = 0\<rparr>"


text \<open>
  A game in which the only player has just stood on 19 and the turn has not moved on
  yet; the dealer holds a ten and an eight.
\<close>

definition stood_game :: BlackjackGame where
  "stood_game =
     \<lparr>channel_id = 1, dealer_id = 100, max_players = 3, timeout = 60, use_emojis = True,
      dealer = \<lparr>user_id = 100, username = ''host'',
                hands = [\<lparr>cards = [\<lparr>suit = Clubs, rank = Ten\<rparr>, \<lparr>suit = Diamonds, rank = Eight\<rparr>],
                          status = ACTIVE, is_split = False, is_split_aces = False\<rparr>],
                is_dealer = True, current_hand_index = 0\<rparr>,
      players = [\<lparr>user_id = 7, username = ''ann'',
                  hands = [\<lparr>cards = [\<lparr>suit = Spades, rank = Ten\<rparr>, \<lparr>suit = Hearts, rank = Nine\<rparr>],
                            status = STAND, is_split = False, is_split_aces = False\<rparr>],
                  is_dealer = False, current_hand_index = 0\<rparr>],
      deck = \<lparr>deck_seed = 1,
               deck_cards = [\<lparr>suit = Spades, rank = Five\<rparr>, \<lparr>suit = Clubs, rank = King\<rparr>]\<rparr>,
      phase = PLAYING, current_turn_index = 0\<rparr>"

text \<open>A new game in the lobby, as the constructor leaves it, with an empty shoe.\<close>

definition lobby_game :: BlackjackGame where
  "lobby_game = BlackjackGame_init 1 100 ''host'' 3 60 \<lparr>deck_seed = 1, deck_cards = []\<rparr>"


text \<open>
  A generator for the examples. Its state is a counter: a seed sets it to the absolute
  value of the seed, each number drawn is the counter reduced below the bound and
  advances it by one, and the shuffle rotates the list by the counter.
\<close>

definition counter_random :: "nat Random" where
  "counter_random =
     \<lparr>random_seed = (\<lambda>a. nat \<bar>a\<bar>),
      random_randbelow = (\<lambda>n q. (q mod n, Suc q)),
      random_shuffle = (\<lambda>q xs. (rotate q xs, Suc q))\<rparr>"

section \<open>The circuit breaker (utils/circuit_breaker.py)\<close>

















section \<open>The cache table (utils/database.py)\<close>

text \<open>
  A row of the table \<open>api_cache\<close>, with its columns; \<open>data\<close> is the JSON text and the
  two times are readings of \<open>time.time()\<close>. The table is the list of its rows in the
  order of insertion. \<open>cache_key\<close> is the primary key: no two rows of a table have the
  same key.
\<close>

record cache_row =
  cache_key :: string
  data :: string
  created_at :: real
  last_accessed :: real
  access_count :: int

type_synonym api_cache = "cache_row list"

text \<open>
  \<open>DELETE FROM api_cache WHERE cache_key IN (SELECT cache_key FROM api_cache ORDER BY
  last_accessed ASC LIMIT n)\<close>: the rows are put in the order of \<open>last_accessed\<close>, rows
  with the same reading staying in the order of the table, the keys of the first \<open>n\<close>
  are selected, and every row with a selected key is deleted.
\<close>

definition selected_keys :: "nat \<Rightarrow> api_cache \<Rightarrow> string list" where
  "selected_keys n t = map cache_key (take n (sort_key last_accessed t))"

definition delete_oldest :: "nat \<Rightarrow> api_cache \<Rightarrow> api_cache" where
  "delete_oldest n t = filter (\<lambda>r. cache_key r \<notin> set (selected_keys n t)) t"

text \<open>
  \<open>INSERT INTO api_cache (cache_key, data, created_at, last_accessed) VALUES (...) ON
  CONFLICT(cache_key) DO UPDATE SET data, created_at, last_accessed\<close>: a row with the key
  gets the new data and times and keeps its \<open>access_count\<close>; otherwise a row is added,
  with the default \<open>access_count\<close> 1.
\<close>

definition insert_or_update :: "string \<Rightarrow> string \<Rightarrow> real \<Rightarrow> api_cache \<Rightarrow> api_cache" where
  "insert_or_update k d now t =
     (if k \<in> set (map cache_key t)
      then map (\<lambda>r. if cache_key r = k
                     then r\<lparr>data := d, created_at := now, last_accessed := now\<rparr>
                     else r) t
      else t @ [\<lparr>cache_key = k, data = d, created_at = now, last_accessed = now,
                 access_count = 1\<rparr>])"

text \<open>
  \<open>set_cache\<close>, under the lock: \<open>now\<close> is the reading of the clock, and \<open>data_json\<close> is
  what \<open>json.dumps(data)\<close> gives, \<open>None\<close> when it raises. The result is the value
  returned and the table as the connection sees it afterwards: an exception is caught
  and gives \<open>False\<close>, after the deletion if there was one.
\<close>

definition set_cache :: "string \<Rightarrow> string option \<Rightarrow> int \<Rightarrow> real \<Rightarrow> api_cache \<Rightarrow> bool \<times> api_cache" where
  "set_cache k data_json max_size now t =
     (let cache_size = int (length t);
          t1 = (if cache_size \<ge> max_size
                then (let remove_count = max 1 (max_size div 10)
                      in delete_oldest (nat remove_count) t)
                else t)
      in (case data_json of
            None \<Rightarrow> (False, t1)
          | Some d \<Rightarrow> (True, insert_or_update k d now t1)))"

text \<open>Calls of \<open>set_cache\<close> one after the other, each with its key, data and clock reading.\<close>

fun set_cache_all :: "int \<Rightarrow> (string \<times> string option \<times> real) list \<Rightarrow> api_cache \<Rightarrow> api_cache" where
  "set_cache_all max_size [] t = t"
| "set_cache_all max_size ((k, dj, now) # rest) t =
     set_cache_all max_size rest (snd (set_cache k dj max_size now t))"

text \<open>A table of three rows for the examples, read oldest last.\<close>

definition three_rows :: api_cache where
  "three_rows =
     [\<lparr>cache_key = ''a'', data = ''1'', created_at = 10, last_accessed = 30, access_count = 4\<rparr>,
      \<lparr>cache_key = ''b'', data = ''2'', created_at = 11, last_accessed = 20, access_count = 1\<rparr>,
      \<lparr>cache_key = ''c'', data = ''3'', created_at = 12, last_accessed = 12, access_count = 1\<rparr>]"

section \<open>The hand value\<close>

lemma foldl_count_card:
  "foldl count_card (t, a) cs = (t + high_total cs, a + num_aces cs)"
  by (induction cs arbitrary: t a) (auto simp: high_total_def num_aces_def settings_defs)

lemma num_aces_nonneg: "0 \<le> num_aces cs"
  by (simp add: num_aces_def)

lemma adjust_aces_form:
  "0 \<le> a \<Longrightarrow> \<exists>k. 0 \<le> k \<and> k \<le> a \<and> adjust_aces t a = t - 10 * k"
proof (induction t a rule: adjust_aces.induct)
  case (1 t a)
  show ?case
  proof (cases "t > 21 \<and> a > 0")
    case True
    with 1 obtain k where k: "0 \<le> k" "k \<le> a - 1" "adjust_aces (t - 10) (a - 1) = t - 10 - 10 * k"
      by (auto simp: settings_defs)
    have "adjust_aces t a = t - 10 * (k + 1)"
      using True k by (subst adjust_aces.simps) (simp add: settings_defs)
    with k show ?thesis by (intro exI [of _ "k + 1"]) simp
  next
    case False
    then have "adjust_aces t a = t"
      by (subst adjust_aces.simps) (auto simp: settings_defs)
    with 1(2) show ?thesis by (intro exI [of _ 0]) simp
  qed
qed

lemma adjust_aces_le:
  "0 \<le> k \<Longrightarrow> k \<le> a \<Longrightarrow> t - 10 * k \<le> 21 \<Longrightarrow> adjust_aces t a \<le> 21"
proof (induction t a arbitrary: k rule: adjust_aces.induct)
  case (1 t a)
  show ?case
  proof (cases "t > 21 \<and> a > 0")
    case True
    then have "0 < k" using 1(4) by (cases "k = 0") auto
    then have "adjust_aces (t - 10) (a - 1) \<le> 21"
      using 1(1) [of "k - 1"] True 1(3,4) by (simp add: settings_defs)
    then show ?thesis using True
      by (subst adjust_aces.simps) (simp add: settings_defs)
  next
    case False
    then have eq: "adjust_aces t a = t"
      by (subst adjust_aces.simps) (auto simp: settings_defs)
    from False 1(2,3,4) show ?thesis unfolding eq by auto
  qed
qed

lemma adjust_aces_greatest:
  "0 \<le> k \<Longrightarrow> k \<le> a \<Longrightarrow> t - 10 * k \<le> 21 \<Longrightarrow> t - 10 * k \<le> adjust_aces t a"
proof (induction t a arbitrary: k rule: adjust_aces.induct)
  case (1 t a)
  show ?case
  proof (cases "t > 21 \<and> a > 0")
    case True
    then have "0 < k" using 1(4) by (cases "k = 0") auto
    then have "t - 10 - 10 * (k - 1) \<le> adjust_aces (t - 10) (a - 1)"
      using 1(1) [of "k - 1"] True 1(3,4) by (simp add: settings_defs)
    then show ?thesis using True
      by (subst adjust_aces.simps) (simp add: settings_defs)
  next
    case False
    then have eq: "adjust_aces t a = t"
      by (subst adjust_aces.simps) (auto simp: settings_defs)
    from 1(2) show ?thesis unfolding eq by auto
  qed
qed

lemma adjust_aces_all_bust:
  "0 \<le> a \<Longrightarrow> 21 < t - 10 * a \<Longrightarrow> adjust_aces t a = t - 10 * a"
proof (induction t a rule: adjust_aces.induct)
  case (1 t a)
  show ?case
  proof (cases "a > 0")
    case True
    with 1(3) have "t > 21" by auto
    with True 1 show ?thesis
      by (subst adjust_aces.simps) (simp add: settings_defs)
  next
    case False
    with 1(2) show ?thesis
      by (subst adjust_aces.simps) (simp add: settings_defs)
  qed
qed

lemma set_possible_totals:
  "set (possible_totals cs) = {high_total cs - 10 * k | k. 0 \<le> k \<and> k \<le> num_aces cs}"
proof (induction cs)
  case Nil
  show ?case by (auto simp: high_total_def num_aces_def)
next
  case (Cons c cs)
  show ?case
  proof (cases "rank c = Ace")
    case True
    have na: "num_aces (c # cs) = num_aces cs + 1" and ht: "high_total (c # cs) = high_total cs + 11"
      using True by (simp_all add: num_aces_def high_total_def)
    show ?thesis
    proof (intro set_eqI iffI)
      fix t assume "t \<in> set (possible_totals (c # cs))"
      then consider k where "0 \<le> k" "k \<le> num_aces cs" "t = high_total cs - 10 * k + 1"
        | k where "0 \<le> k" "k \<le> num_aces cs" "t = high_total cs - 10 * k + 11"
        using True Cons.IH by auto
      then show "t \<in> {high_total (c # cs) - 10 * k | k. 0 \<le> k \<and> k \<le> num_aces (c # cs)}"
      proof cases
        case 1
        then show ?thesis unfolding na ht
          by (intro CollectI exI [of _ "k + 1"]) simp
      next
        case 2
        then show ?thesis unfolding na ht
          by (intro CollectI exI [of _ k]) simp
      qed
    next
      fix t assume "t \<in> {high_total (c # cs) - 10 * k | k. 0 \<le> k \<and> k \<le> num_aces (c # cs)}"
      then obtain k where k: "0 \<le> k" "k \<le> num_aces cs + 1" "t = high_total cs + 11 - 10 * k"
        unfolding na ht by auto
      show "t \<in> set (possible_totals (c # cs))"
      proof (cases "k = 0")
        case True
        then have "t - 11 \<in> set (possible_totals cs)"
          using k num_aces_nonneg [of cs] unfolding Cons.IH by (intro CollectI exI [of _ 0]) simp
        then have "t \<in> (\<lambda>t. t + 11) ` set (possible_totals cs)"
          by (metis (no_types) diff_add_cancel image_eqI)
        then show ?thesis using \<open>rank c = Ace\<close> by simp
      next
        case False
        then have "t - 1 \<in> set (possible_totals cs)"
          using k unfolding Cons.IH by (intro CollectI exI [of _ "k - 1"]) simp
        then have "t \<in> (\<lambda>t. t + 1) ` set (possible_totals cs)"
          by (metis (no_types) diff_add_cancel image_eqI)
        then show ?thesis using \<open>rank c = Ace\<close> by simp
      qed
    qed
  next
    case False
    then have na: "num_aces (c # cs) = num_aces cs" by (simp add: num_aces_def)
    obtain v where v: "high_total (c # cs) = high_total cs + v"
      "set (possible_totals (c # cs)) = (\<lambda>t. t + v) ` set (possible_totals cs)"
      using False by (auto simp: high_total_def)
    show ?thesis unfolding v na Cons.IH by (auto simp: image_iff)
  qed
qed

lemma calculate_hand_value_eq:
  "calculate_hand_value cs = adjust_aces (high_total cs) (num_aces cs)"
proof (cases "cs = []")
  case True
  then show ?thesis
    by (simp add: calculate_hand_value_def high_total_def num_aces_def adjust_aces.simps)
next
  case False
  then show ?thesis
    by (simp add: calculate_hand_value_def foldl_count_card)
qed

text \<open>
  Claim C2. The hand value is the total with every Ace at 11, lowered by 10 while it is
  above 21 and an Ace is left to lower. So the value is at most 21 whenever some way of
  counting the Aces as 1 or 11 gives at most 21 (it is then the greatest such total), and
  otherwise it is the smallest total the hand can be counted at.
\<close>

theorem calculate_hand_value_best:
  "calculate_hand_value cs = adjust_aces (high_total cs) (num_aces cs)
   \<and> calculate_hand_value cs \<in> set (possible_totals cs)
   \<and> ((\<exists>t \<in> set (possible_totals cs). t \<le> 21) \<longrightarrow>
        calculate_hand_value cs \<le> 21
        \<and> (\<forall>t \<in> set (possible_totals cs). t \<le> 21 \<longrightarrow> t \<le> calculate_hand_value cs))
   \<and> ((\<forall>t \<in> set (possible_totals cs). 21 < t) \<longrightarrow>
        calculate_hand_value cs = Min (set (possible_totals cs)))"
proof -
  let ?h = "high_total cs" and ?n = "num_aces cs"
  let ?v = "calculate_hand_value cs"
  have n0: "0 \<le> ?n" by (rule num_aces_nonneg)
  have eq: "?v = adjust_aces ?h ?n" by (rule calculate_hand_value_eq)
  have mem: "?v \<in> set (possible_totals cs)"
    using adjust_aces_form [OF n0, of ?h] unfolding eq set_possible_totals by auto
  have le: "?v \<le> 21 \<and> (\<forall>t \<in> set (possible_totals cs). t \<le> 21 \<longrightarrow> t \<le> ?v)"
    if "\<exists>t \<in> set (possible_totals cs). t \<le> 21"
  proof -
    from that obtain k where k: "0 \<le> k" "k \<le> ?n" "?h - 10 * k \<le> 21"
      unfolding set_possible_totals by auto
    have "?v \<le> 21" unfolding eq by (rule adjust_aces_le [OF k])
    moreover have "\<forall>t \<in> set (possible_totals cs). t \<le> 21 \<longrightarrow> t \<le> ?v"
      unfolding eq set_possible_totals using adjust_aces_greatest by auto
    ultimately show ?thesis by simp
  qed
  have bust: "?v = Min (set (possible_totals cs))"
    if all: "\<forall>t \<in> set (possible_totals cs). 21 < t"
  proof -
    have "?h - 10 * ?n \<in> set (possible_totals cs)"
      unfolding set_possible_totals using n0 by auto
    with all have "21 < ?h - 10 * ?n" by blast
    then have v: "?v = ?h - 10 * ?n"
      unfolding eq by (rule adjust_aces_all_bust [OF n0])
    have "\<forall>t \<in> set (possible_totals cs). ?v \<le> t"
      unfolding v set_possible_totals by auto
    with mem show ?thesis
      by (intro Min_eqI [symmetric]) auto
  qed
  from eq mem le bust show ?thesis by blast
qed

theorem calculate_hand_value_best_witness:
  "(\<exists>t \<in> set (possible_totals [\<lparr>suit = Spades, rank = Ace\<rparr>, \<lparr>suit = Hearts, rank = Ace\<rparr>,
       \<lparr>suit = Diamonds, rank = Nine\<rparr>]). t \<le> 21)
   \<and> calculate_hand_value [\<lparr>suit = Spades, rank = Ace\<rparr>, \<lparr>suit = Hearts, rank = Ace\<rparr>,
       \<lparr>suit = Diamonds, rank = Nine\<rparr>] \<le> 21
   \<and> possible_totals [\<lparr>suit = Spades, rank = Ten\<rparr>, \<lparr>suit = Hearts, rank = King\<rparr>,
       \<lparr>suit = Diamonds, rank = Ace\<rparr>, \<lparr>suit = Clubs, rank = Ace\<rparr>] = [22, 32, 32, 42]
   \<and> calculate_hand_value [\<lparr>suit = Spades, rank = Ten\<rparr>, \<lparr>suit = Hearts, rank = King\<rparr>,
       \<lparr>suit = Diamonds, rank = Ace\<rparr>, \<lparr>suit = Clubs, rank = Ace\<rparr>]
     = Min (set (possible_totals [\<lparr>suit = Spades, rank = Ten\<rparr>, \<lparr>suit = Hearts, rank = King\<rparr>,
       \<lparr>suit = Diamonds, rank = Ace\<rparr>, \<lparr>suit = Clubs, rank = Ace\<rparr>]))"
  using calculate_hand_value_best [of "[\<lparr>suit = Spades, rank = Ace\<rparr>, \<lparr>suit = Hearts, rank = Ace\<rparr>,
       \<lparr>suit = Diamonds, rank = Nine\<rparr>]"]
    calculate_hand_value_best [of "[\<lparr>suit = Spades, rank = Ten\<rparr>, \<lparr>suit = Hearts, rank = King\<rparr>,
       \<lparr>suit = Diamonds, rank = Ace\<rparr>, \<lparr>suit = Clubs, rank = Ace\<rparr>]"]
  by simp

section \<open>The game: basic facts\<close>

lemma can_dealer_stand_total:
  "hands (dealer g) \<noteq> [] \<Longrightarrow> \<exists>b. can_dealer_stand g = Inr b"
  by (auto simp: can_dealer_stand_def can_dealer_hit_def Let_def)


lemma skip_finished_ge: "i \<le> skip_finished ps i"
proof (induction ps i rule: skip_finished.induct)
  case (1 ps i)
  show ?case
  proof (cases "i < length ps \<and> all_hands_finished (ps ! i)")
    case True
    with 1 have "i + 1 \<le> skip_finished ps (i + 1)" by simp
    then show ?thesis using True by (subst skip_finished.simps) simp
  next
    case False
    then show ?thesis by (subst skip_finished.simps) auto
  qed
qed

lemma skip_finished_stop:
  "skip_finished ps i < length ps \<Longrightarrow> \<not> all_hands_finished (ps ! skip_finished ps i)"
proof (induction ps i rule: skip_finished.induct)
  case (1 ps i)
  show ?case
  proof (cases "i < length ps \<and> all_hands_finished (ps ! i)")
    case True
    then have eq: "skip_finished ps i = skip_finished ps (i + 1)"
      by (subst skip_finished.simps) simp
    show ?thesis using 1 True unfolding eq by simp
  next
    case False
    then have eq: "skip_finished ps i = i"
      by (subst skip_finished.simps) auto
    show ?thesis using 1(2) False unfolding eq by simp
  qed
qed

lemma skip_finished_all:
  "\<forall>p \<in> set ps. all_hands_finished p \<Longrightarrow> i \<le> length ps \<Longrightarrow> skip_finished ps i = length ps"
proof (induction ps i rule: skip_finished.induct)
  case (1 ps i)
  show ?case
  proof (cases "i < length ps")
    case True
    then have "all_hands_finished (ps ! i)" using 1(2) by simp
    then have eq: "skip_finished ps i = skip_finished ps (i + 1)"
      using True by (subst skip_finished.simps) simp
    show ?thesis unfolding eq using 1 True \<open>all_hands_finished (ps ! i)\<close> by simp
  next
    case False
    then show ?thesis using 1(3) by (subst skip_finished.simps) simp
  qed
qed

text \<open>Fields that the updates of a participant leave alone.\<close>

lemma update_player_fields [simp]:
  "phase (update_player s f g) = phase g"
  "current_turn_index (update_player s f g) = current_turn_index g"
  "deck (update_player s f g) = deck g"
  "max_players (update_player s f g) = max_players g"
  "dealer_id (update_player s f g) = dealer_id g"
  "length (players (update_player s f g)) = length (players g)"
  by (cases s; simp)+

lemma update_current_hand_fields [simp]:
  "phase (update_current_hand s f g) = phase g"
  "current_turn_index (update_current_hand s f g) = current_turn_index g"
  "deck (update_current_hand s f g) = deck g"
  "max_players (update_current_hand s f g) = max_players g"
  "dealer_id (update_current_hand s f g) = dealer_id g"
  "length (players (update_current_hand s f g)) = length (players g)"
  by (simp_all add: update_current_hand_def)

lemma update_player_other [simp]:
  "s \<noteq> PlayerSeat i \<Longrightarrow> players (update_player s f g) ! i = players g ! i"
  by (cases s) auto

lemma update_current_hand_other [simp]:
  "s \<noteq> PlayerSeat i \<Longrightarrow> players (update_current_hand s f g) ! i = players g ! i"
  by (simp add: update_current_hand_def)

lemma update_hand_fields [simp]:
  "user_id (update_hand i f p) = user_id p"
  "is_dealer (update_hand i f p) = is_dealer p"
  "current_hand_index (update_hand i f p) = current_hand_index p"
  "length (hands (update_hand i f p)) = length (hands p)"
  by (simp_all add: update_hand_def)

lemma get_current_player_update [simp]:
  "get_current_player (update_player s f g) = get_current_player g"
  "get_current_player (update_current_hand s f' g) = get_current_player g"
  by (simp_all add: get_current_player_def)

lemma check_dealer_auto_stand_cases:
  assumes "phase g = DEALER_TURN" "hands (dealer g) \<noteq> []"
  shows "check_dealer_auto_stand g =
     Returned () (if can_dealer_hit g = Inr True \<or> cards (hands (dealer g) ! 0) = [] then g
        else g\<lparr>dealer := update_hand 0 (\<lambda>h. h\<lparr>status := STAND\<rparr>) (dealer g), phase := RESULTS\<rparr>)"
  using assms
  apply (auto simp: check_dealer_auto_stand_def can_dealer_hit_def Let_def calculate_hand_value_def)
  done


text \<open>
  A seat \<open>i\<close> is behind the turn when the game is past it: while the players are
  moving, the turn index is greater than \<open>i\<close>.
\<close>

lemma advance_to_next_player_behind:
  assumes "i < length (players g)" "phase g = PLAYING \<longrightarrow> i < current_turn_index g"
  shows "players (state_of (advance_to_next_player g)) = players g
     \<and> (phase (state_of (advance_to_next_player g)) = PLAYING \<longrightarrow>
          i < current_turn_index (state_of (advance_to_next_player g)))"
proof -
  let ?g1 = "g\<lparr>current_turn_index := skip_finished (players g) (current_turn_index g + 1)\<rparr>"
  have ge: "current_turn_index g + 1 \<le> skip_finished (players g) (current_turn_index g + 1)"
    by (rule skip_finished_ge)
  have cd: "players (state_of (check_dealer_auto_stand (?g1\<lparr>phase := DEALER_TURN\<rparr>))) = players g
     \<and> phase (state_of (check_dealer_auto_stand (?g1\<lparr>phase := DEALER_TURN\<rparr>))) \<noteq> PLAYING"
    by (simp add: check_dealer_auto_stand_def Let_def)
  show ?thesis
    using assms ge cd
    by (auto simp: advance_to_next_player_def Let_def split: option.splits sum.splits bool.splits)
qed

lemma current_seat_not_behind:
  "behind i g \<Longrightarrow> get_current_player g = Some s \<Longrightarrow> s \<noteq> PlayerSeat i"
  by (auto simp: behind_def get_current_player_def split: if_splits)

lemma behind_update [simp]:
  "behind i (update_player s f g) = behind i g"
  "behind i (update_current_hand s f' g) = behind i g"
  "behind i (g\<lparr>deck := d\<rparr>) = behind i g"
  by (simp_all add: behind_def)

lemma advance_turn_behind:
  "behind i g \<Longrightarrow>
     players (state_of (advance_turn g)) ! i = players g ! i \<and> behind i (state_of (advance_turn g))"
proof (induction g rule: advance_turn.induct)
  case (1 g)
  show ?case
  proof (cases "get_current_player g")
    case None
    then have "advance_turn g = advance_to_next_player g"
      by (subst advance_turn.simps) simp
    then show ?thesis
      using advance_to_next_player_behind [of i g] 1(2) by (simp add: behind_def)
  next
    case (Some s)
    have ns: "s \<noteq> PlayerSeat i" using current_seat_not_behind [OF 1(2) Some] .
    let ?p = "player_at g s"
    show ?thesis
    proof (cases "\<not> all_hands_finished ?p \<and> int (current_hand_index ?p) < int (length (hands ?p)) - 1")
      case False
      then have "advance_turn g = advance_to_next_player g"
        using Some by (subst advance_turn.simps) auto
      then show ?thesis
        using advance_to_next_player_behind [of i g] 1(2) by (simp add: behind_def)
    next
      case True
      let ?g1 = "update_player s (\<lambda>p. p\<lparr>current_hand_index := current_hand_index p + 1\<rparr>) g"
      let ?h = "hands ?p ! (current_hand_index ?p + 1)"
      show ?thesis
      proof (cases "length (cards ?h) = 1")
        case False
        then have "advance_turn g = Returned () ?g1"
          using Some True by (subst advance_turn.simps) (simp add: Let_def)
        then show ?thesis using ns 1(2) by simp
      next
        case one: True
        show ?thesis
        proof (cases "draw (deck ?g1)")
          case (Inl e)
          then have "advance_turn g = Raised e ?g1"
            using Some True one by (subst advance_turn.simps) (simp add: Let_def)
          then show ?thesis using ns 1(2) by simp
        next
          case (Inr cd)
          obtain c d where cd: "cd = (c, d)" by (cases cd)
          let ?g2 = "update_current_hand s (\<lambda>h. h\<lparr>cards := cards h @ [c]\<rparr>) (?g1\<lparr>deck := d\<rparr>)"
          let ?g3 = "update_current_hand s (\<lambda>h. h\<lparr>status := SPLIT_ACES\<rparr>) ?g2"
          show ?thesis
          proof (cases "is_split_aces ?h")
            case False
            then have "advance_turn g = Returned () ?g2"
              using Some True one Inr cd by (subst advance_turn.simps) (simp add: Let_def)
            then show ?thesis using ns 1(2) by simp
          next
            case aces: True
            have eq: "advance_turn g = advance_turn ?g3"
              using Some True one Inr cd aces by (subst advance_turn.simps) (simp add: Let_def)
            have b3: "behind i ?g3" using 1(2) by simp
            have "players (state_of (advance_turn ?g3)) ! i = players ?g3 ! i
               \<and> behind i (state_of (advance_turn ?g3))"
              using 1(1) [OF Some refl True refl refl one _ _ refl aces b3] Inr cd
              by simp
            then show ?thesis unfolding eq using ns by simp
          qed
        qed
      qed
    qed
  qed
qed


lemma state_of_and_then_Returned [simp]:
  "state_of (and_then x (Returned v)) = state_of x"
  by (cases x) simp_all

lemma behind_phase [simp]:
  "behind i (g\<lparr>phase := RESULTS\<rparr>) = (i < length (players g))"
  by (simp add: behind_def)

lemma behind_length: "behind i g \<Longrightarrow> i < length (players g)"
  by (simp add: behind_def)

lemma advance_turn_behind_players:
  "behind i g \<Longrightarrow> players (state_of (advance_turn g)) ! i = players g ! i"
  by (simp add: advance_turn_behind)

lemma advance_turn_behind_keeps:
  "behind i g \<Longrightarrow> behind i (state_of (advance_turn g))"
  by (simp add: advance_turn_behind)

lemma hit_behind:
  assumes "behind i g"
  shows "players (state_of (hit uid g)) ! i = players g ! i \<and> behind i (state_of (hit uid g))"
proof (cases "get_current_player g")
  case None
  then show ?thesis using assms by (simp add: hit_def)
next
  case (Some s)
  have ns: "s \<noteq> PlayerSeat i" using current_seat_not_behind [OF assms Some] .
  show ?thesis
    using Some ns assms behind_length [OF assms]
    by (auto simp: hit_def Let_def advance_turn_behind_players advance_turn_behind_keeps split: sum.splits bool.splits prod.splits)
qed

lemma stand_behind:
  assumes "behind i g"
  shows "players (state_of (stand uid g)) ! i = players g ! i \<and> behind i (state_of (stand uid g))"
proof (cases "get_current_player g")
  case None
  then show ?thesis using assms by (simp add: stand_def)
next
  case (Some s)
  have ns: "s \<noteq> PlayerSeat i" using current_seat_not_behind [OF assms Some] .
  show ?thesis
    using Some ns assms behind_length [OF assms]
    by (auto simp: stand_def Let_def advance_turn_behind_players advance_turn_behind_keeps split: sum.splits bool.splits prod.splits)
qed

lemma double_down_behind:
  assumes "behind i g"
  shows "players (state_of (double_down uid g)) ! i = players g ! i
    \<and> behind i (state_of (double_down uid g))"
proof (cases "get_current_player g")
  case None
  then show ?thesis using assms by (simp add: double_down_def)
next
  case (Some s)
  have ns: "s \<noteq> PlayerSeat i" using current_seat_not_behind [OF assms Some] .
  show ?thesis
    using Some ns assms
    by (auto simp: double_down_def Let_def advance_turn_behind_players advance_turn_behind_keeps split: sum.splits bool.splits prod.splits)
qed

lemma surrender_behind:
  assumes "behind i g"
  shows "players (state_of (surrender uid g)) ! i = players g ! i
    \<and> behind i (state_of (surrender uid g))"
proof (cases "get_current_player g")
  case None
  then show ?thesis using assms by (simp add: surrender_def)
next
  case (Some s)
  have ns: "s \<noteq> PlayerSeat i" using current_seat_not_behind [OF assms Some] .
  show ?thesis
    using Some ns assms
    by (auto simp: surrender_def Let_def advance_turn_behind_players advance_turn_behind_keeps split: sum.splits bool.splits prod.splits)
qed

lemma split_behind:
  assumes "behind i g"
  shows "players (state_of (split uid g)) ! i = players g ! i
    \<and> behind i (state_of (split uid g))"
proof (cases "get_current_player g")
  case None
  then show ?thesis using assms by (simp add: split_def)
next
  case (Some s)
  have ns: "s \<noteq> PlayerSeat i" using current_seat_not_behind [OF assms Some] .
  show ?thesis
    using Some ns assms
    by (auto simp: split_def Let_def advance_turn_behind_players advance_turn_behind_keeps split: sum.splits bool.splits prod.splits)
qed


lemma perform_behind:
  "behind i g \<Longrightarrow> players (perform m g) ! i = players g ! i \<and> behind i (perform m g)"
  by (cases m) (simp_all add: hit_behind stand_behind double_down_behind split_behind
      surrender_behind)

lemma perform_all_behind:
  "behind i g \<Longrightarrow> players (perform_all ms g) ! i = players g ! i \<and> behind i (perform_all ms g)"
proof (induction ms arbitrary: g)
  case Nil
  then show ?case by simp
next
  case (Cons m ms)
  from perform_behind [OF Cons.prems, of m]
  have 1: "players (perform m g) ! i = players g ! i" and 2: "behind i (perform m g)" by simp_all
  from Cons.IH [OF 2] 1 show ?case by simp
qed

lemma list_insert_after_update:
  "k < length hs \<Longrightarrow> list_insert (Suc k) y (hs[k := x]) = take k hs @ x # y # drop (Suc k) hs"
  by (simp add: list_insert_def upd_conv_take_nth_drop)

lemma update_in_middle:
  "k = length xs \<Longrightarrow> (xs @ x # y # zs)[k := x'] = xs @ x' # y # zs"
  "k = length xs \<Longrightarrow> (xs @ x # y # zs)[Suc k := y'] = xs @ x # y' # zs"
  "k = length xs \<Longrightarrow> (xs @ x # y # zs) ! k = x"
  "k = length xs \<Longrightarrow> (xs @ x # y # zs) ! Suc k = y"
  by (simp_all add: list_update_append nth_append)

lemma draw_last:
  "deck_cards d = xs @ [c] \<Longrightarrow> draw d = Inr (c, d\<lparr>deck_cards := xs\<rparr>)"
  by (simp add: draw_def)

lemma advance_to_next_player_seated:
  assumes "phase g = PLAYING" "current_turn_index g = i" "i < length (players g)"
    "\<not> is_dealer (players g ! i)" "hands (dealer g) \<noteq> []"
    "\<not> check_all_players_busted_or_surrendered g"
  shows "\<exists>g'. advance_to_next_player g = Returned () g' \<and> players g' = players g
     \<and> deck g' = deck g \<and> behind i g'"
proof -
  let ?g1 = "g\<lparr>current_turn_index := skip_finished (players g) (i + 1)\<rparr>"
  have ge: "i + 1 \<le> skip_finished (players g) (i + 1)" by (rule skip_finished_ge)
  have cur: "get_current_player g = Some (PlayerSeat i)"
    using assms by (simp add: get_current_player_def)
  have eq: "advance_to_next_player g =
      (if skip_finished (players g) (i + 1) \<ge> length (players g)
       then check_dealer_auto_stand (?g1\<lparr>phase := DEALER_TURN\<rparr>) else Returned () ?g1)"
    using assms cur by (simp add: advance_to_next_player_def Let_def)
  show ?thesis
  proof (cases "skip_finished (players g) (i + 1) \<ge> length (players g)")
    case True
    have "check_dealer_auto_stand (?g1\<lparr>phase := DEALER_TURN\<rparr>) = Returned ()
       (if can_dealer_hit (?g1\<lparr>phase := DEALER_TURN\<rparr>) = Inr True
           \<or> cards (hands (dealer (?g1\<lparr>phase := DEALER_TURN\<rparr>)) ! 0) = []
        then ?g1\<lparr>phase := DEALER_TURN\<rparr>
        else ?g1\<lparr>phase := DEALER_TURN\<rparr>\<lparr>dealer := update_hand 0 (\<lambda>h. h\<lparr>status := STAND\<rparr>)
               (dealer (?g1\<lparr>phase := DEALER_TURN\<rparr>)), phase := RESULTS\<rparr>)"
      using assms(5) by (intro check_dealer_auto_stand_cases) simp_all
    then show ?thesis using True assms(3) unfolding eq
      by (auto simp: behind_def)
  next
    case False
    then show ?thesis using ge assms(3) unfolding eq by (auto simp: behind_def)
  qed
qed

lemma skip_finished_past_end:
  assumes "\<forall>p \<in> set ps. all_hands_finished p"
  shows "length ps \<le> skip_finished ps i"
proof (cases "i \<le> length ps")
  case True
  then show ?thesis using skip_finished_all [OF assms] by simp
next
  case False
  then show ?thesis using skip_finished_ge [of i ps] by simp
qed

lemma out_of_play_iff:
  "status h \<notin> {ACTIVE, STAND, BLACKJACK, SPLIT_ACES} \<longleftrightarrow> status h = BUST \<or> status h = SURRENDER"
  by (cases "status h") auto

lemma check_all_players_iff:
  "players g \<noteq> [] \<Longrightarrow>
   check_all_players_busted_or_surrendered g \<longleftrightarrow>
     (\<forall>p \<in> set (players g). \<forall>h \<in> set (hands p). status h = BUST \<or> status h = SURRENDER)"
  unfolding check_all_players_busted_or_surrendered_def list_all_iff out_of_play_iff
  by simp

section \<open>The dealer's rule: lemmas\<close>






lemma can_dealer_hit_dealer:
  "dealer g' = dealer g \<Longrightarrow> can_dealer_hit g' = can_dealer_hit g"
  by (simp add: can_dealer_hit_def)




lemma dealer_update_player [simp]:
  "dealer (update_player (PlayerSeat j) f g) = dealer g"
  "dealer (update_current_hand (PlayerSeat j) f' g) = dealer g"
  by (simp_all add: update_current_hand_def)










section \<open>Who takes part does not change during play\<close>


lemma map_user_id_update:
  "user_id (f (ps ! i)) = user_id (ps ! i) \<Longrightarrow> map user_id (ps[i := f (ps ! i)]) = map user_id ps"
proof (cases "i < length ps")
  case True
  then show ?thesis if "user_id (f (ps ! i)) = user_id (ps ! i)"
    using that by (simp add: map_update list_update_same_conv)
next
  case False
  then show ?thesis by (simp add: list_update_beyond)
qed

lemma roster_update_player:
  "(\<And>p. user_id (f p) = user_id p) \<Longrightarrow> roster (update_player s f g) = roster g"
  by (cases s) (simp_all add: roster_def map_user_id_update)

lemma roster_update_current_hand [simp]:
  "roster (update_current_hand s f g) = roster g"
  by (simp add: update_current_hand_def roster_update_player)

lemma roster_fields [simp]:
  "roster (g\<lparr>deck := d\<rparr>) = roster g"
  "roster (g\<lparr>phase := ph\<rparr>) = roster g"
  "roster (g\<lparr>current_turn_index := n\<rparr>) = roster g"
  "roster (g\<lparr>use_emojis := b\<rparr>) = roster g"
  by (simp_all add: roster_def)

lemma roster_dealer_hand [simp]:
  "roster (g\<lparr>dealer := update_hand i f (dealer g)\<rparr>) = roster g"
  by (simp add: roster_def)

lemma roster_check_dealer_auto_stand [simp]:
  "roster (state_of (check_dealer_auto_stand g)) = roster g"
  by (simp add: check_dealer_auto_stand_def Let_def)

lemma roster_advance_to_next_player [simp]:
  "roster (state_of (advance_to_next_player g)) = roster g"
  by (auto simp: advance_to_next_player_def Let_def split: option.splits sum.splits bool.splits)

lemma roster_advance_turn [simp]:
  "roster (state_of (advance_turn g)) = roster g"
proof (induction g rule: advance_turn.induct)
  case (1 g)
  show ?case
  proof (cases "get_current_player g")
    case None
    then have "advance_turn g = advance_to_next_player g"
      by (subst advance_turn.simps) simp
    then show ?thesis by simp
  next
    case (Some s)
    let ?p = "player_at g s"
    show ?thesis
    proof (cases "\<not> all_hands_finished ?p \<and> int (current_hand_index ?p) < int (length (hands ?p)) - 1")
      case False
      then have "advance_turn g = advance_to_next_player g"
        using Some by (subst advance_turn.simps) auto
      then show ?thesis by simp
    next
      case True
      let ?g1 = "update_player s (\<lambda>p. p\<lparr>current_hand_index := current_hand_index p + 1\<rparr>) g"
      let ?h = "hands ?p ! (current_hand_index ?p + 1)"
      have r1: "roster ?g1 = roster g" by (rule roster_update_player) simp
      show ?thesis
      proof (cases "length (cards ?h) = 1")
        case False
        then have "advance_turn g = Returned () ?g1"
          using Some True by (subst advance_turn.simps) (simp add: Let_def)
        then show ?thesis using r1 by simp
      next
        case one: True
        show ?thesis
        proof (cases "draw (deck ?g1)")
          case (Inl e)
          then have "advance_turn g = Raised e ?g1"
            using Some True one by (subst advance_turn.simps) (simp add: Let_def)
          then show ?thesis using r1 by simp
        next
          case (Inr cd)
          obtain c d where cd: "cd = (c, d)" by (cases cd)
          let ?g2 = "update_current_hand s (\<lambda>h. h\<lparr>cards := cards h @ [c]\<rparr>) (?g1\<lparr>deck := d\<rparr>)"
          let ?g3 = "update_current_hand s (\<lambda>h. h\<lparr>status := SPLIT_ACES\<rparr>) ?g2"
          have r2: "roster ?g2 = roster g" using r1 by simp
          show ?thesis
          proof (cases "is_split_aces ?h")
            case False
            then have "advance_turn g = Returned () ?g2"
              using Some True one Inr cd by (subst advance_turn.simps) (simp add: Let_def)
            then show ?thesis using r2 by simp
          next
            case aces: True
            have eq: "advance_turn g = advance_turn ?g3"
              using Some True one Inr cd aces by (subst advance_turn.simps) (simp add: Let_def)
            have draw_cd: "draw (deck ?g1) = Inr (c, d)" using Inr cd by simp
            note ih = 1 [OF Some refl True refl refl one draw_cd refl refl aces]
            show ?thesis unfolding eq ih using r2 by simp
          qed
        qed
      qed
    qed
  qed
qed


lemma roster_and_then [simp]:
  "roster (state_of (and_then x (Returned v))) = roster (state_of x)"
  by (cases x) simp_all

lemma roster_and_then_general:
  "(\<And>g. roster (state_of (f g)) = roster g) \<Longrightarrow>
   roster (state_of (and_then x f)) = roster (state_of x)"
  by (cases x) simp_all

lemma roster_hit [simp]: "roster (state_of (hit uid g)) = roster g"
  by (auto simp: hit_def Let_def split: option.splits sum.splits bool.splits prod.splits)

lemma roster_stand [simp]: "roster (state_of (stand uid g)) = roster g"
  by (auto simp: stand_def Let_def split: option.splits sum.splits bool.splits prod.splits)

lemma roster_double_down [simp]: "roster (state_of (double_down uid g)) = roster g"
  by (auto simp: double_down_def Let_def split: option.splits sum.splits bool.splits prod.splits)

lemma roster_surrender [simp]: "roster (state_of (surrender uid g)) = roster g"
  by (auto simp: surrender_def Let_def split: option.splits sum.splits bool.splits prod.splits)

lemma roster_split [simp]: "roster (state_of (split uid g)) = roster g"
  by (auto simp: split_def Let_def roster_update_player
      split: option.splits sum.splits bool.splits prod.splits)

lemma roster_deal_card_to [simp]: "roster (state_of (deal_card_to s g)) = roster g"
  by (auto simp: deal_card_to_def Let_def roster_update_player split: sum.splits prod.splits)

lemma roster_deal_round [simp]: "roster (state_of (deal_round is g)) = roster g"
proof (induction "is" arbitrary: g)
  case Nil
  then show ?case by simp
next
  case (Cons i rest)
  show ?case
    by (simp add: roster_and_then_general [of "deal_round rest", OF Cons.IH])
qed

lemma roster_deal_initial_cards [simp]:
  "roster (state_of (deal_initial_cards g)) = roster g"
  unfolding deal_initial_cards_def
  by (simp add: roster_and_then_general)

lemma user_id_mark_blackjack [simp]: "user_id (mark_blackjack p) = user_id p"
  by (simp add: mark_blackjack_def)

lemma roster_start_game [simp]: "roster (state_of (start_game g)) = roster g"
proof -
  have step: "roster (state_of
      (if is_blackjack (cards (hands (dealer g1) ! 0))
          then Returned True
                 (g1\<lparr>dealer := update_hand 0 (\<lambda>h. h\<lparr>status := BLACKJACK\<rparr>) (dealer g1),
                     phase := RESULTS\<rparr>)
          else
            let g2 = g1\<lparr>players := map mark_blackjack (players g1)\<rparr>;
                g3 = g2\<lparr>phase := PLAYING,
                        current_turn_index := skip_finished (players g2) 0\<rparr>
            in if current_turn_index g3 \<ge> length (players g3)
               then and_then (check_dealer_auto_stand (g3\<lparr>phase := DEALER_TURN\<rparr>))
                      (Returned True)
               else Returned True g3)) = roster g1" for g1
    by (simp add: Let_def) (simp add: roster_def comp_def)
  show ?thesis
    unfolding start_game_def
    by (simp add: roster_and_then_general [OF step])
qed

lemma roster_ok_add_player:
  "roster_ok (roster g) \<Longrightarrow> roster_ok (roster (state_of (add_player uid uname g)))"
  by (auto simp: add_player_def roster_def roster_ok_def new_player_def list_ex_iff)

lemma roster_ok_remove_player:
  "roster_ok (roster g) \<Longrightarrow> roster_ok (roster (state_of (remove_player uid g)))"
proof -
  have "int (length (filter (\<lambda>p. user_id p \<noteq> uid) (players g))) \<le> int (length (players g))"
    by simp
  moreover have "map user_id (filter (\<lambda>p. user_id p \<noteq> uid) (players g))
      = filter (\<lambda>i. i \<noteq> uid) (map user_id (players g))"
    by (simp add: filter_map comp_def)
  ultimately show ?thesis if "roster_ok (roster g)"
    using that by (auto simp: remove_player_def roster_def roster_ok_def
        simp del: length_filter_le intro: order_trans)
qed

lemma max_players_add_remove [simp]:
  "max_players (state_of (add_player uid uname g)) = max_players g"
  "max_players (state_of (remove_player uid g)) = max_players g"
  by (simp_all add: add_player_def remove_player_def)

lemma max_players_roster: "roster g' = roster g \<Longrightarrow> max_players g' = max_players g"
  by (simp add: roster_def)

lemma reachable_roster_ok:
  "reachable g \<Longrightarrow> 0 \<le> max_players g \<Longrightarrow> roster_ok (roster g)"
proof (induction rule: reachable.induct)
  case (init channel host host_name maxp tmo d)
  then show ?case
    by (simp add: BlackjackGame_init_def roster_def roster_ok_def new_player_def)
next
  case (add_player g uid uname)
  then show ?case by (simp add: roster_ok_add_player)
next
  case (remove_player g uid)
  then show ?case by (simp add: roster_ok_remove_player)
next
  case (toggle_style g)
  then show ?case by (simp add: toggle_style_def roster_def)
next
  case (start_game g)
  then show ?case using max_players_roster [OF roster_start_game [of g]] by simp
next
  case (hit g uid)
  then show ?case using max_players_roster [OF roster_hit [of uid g]] by simp
next
  case (stand g uid)
  then show ?case using max_players_roster [OF roster_stand [of uid g]] by simp
next
  case (double_down g uid)
  then show ?case using max_players_roster [OF roster_double_down [of uid g]] by simp
next
  case (split g uid)
  then show ?case using max_players_roster [OF roster_split [of uid g]] by simp
next
  case (surrender g uid)
  then show ?case using max_players_roster [OF roster_surrender [of uid g]] by simp
qed

section \<open>The shoe: lemmas\<close>


lemma draw_many_take:
  "n \<le> length (deck_cards d) \<Longrightarrow>
   draw_many n d = Inr (rev (drop (length (deck_cards d) - n) (deck_cards d)),
                        d\<lparr>deck_cards := take (length (deck_cards d) - n) (deck_cards d)\<rparr>)"
proof (induction n arbitrary: d)
  case 0
  then show ?case by simp
next
  case (Suc n)
  let ?xs = "deck_cards d"
  let ?d' = "d\<lparr>deck_cards := butlast ?xs\<rparr>"
  have ne: "?xs \<noteq> []" using Suc.prems by auto
  have dr: "draw d = Inr (last ?xs, ?d')" using ne by (simp add: draw_def)
  have len: "n \<le> length (deck_cards ?d')" using Suc.prems by simp
  have l1: "length (butlast ?xs) - n = length ?xs - Suc n" by simp
  have dropeq: "drop (length ?xs - Suc n) ?xs = drop (length ?xs - Suc n) (butlast ?xs) @ [last ?xs]"
  proof -
    have "?xs = butlast ?xs @ [last ?xs]" using ne by simp
    then have "drop (length ?xs - Suc n) ?xs
        = drop (length ?xs - Suc n) (butlast ?xs @ [last ?xs])" by simp
    also have "\<dots> = drop (length ?xs - Suc n) (butlast ?xs) @ [last ?xs]"
      using Suc.prems by simp
    finally show ?thesis .
  qed
  have takeeq: "take (length ?xs - Suc n) (butlast ?xs) = take (length ?xs - Suc n) ?xs"
    using ne by (intro take_butlast) simp
  show ?case
    using Suc.IH [OF len] dr unfolding l1
    by (simp add: dropeq takeeq)
qed

lemma drawn_cards_all:
  "drawn_cards (length (deck_cards d)) d = Some (rev (deck_cards d))"
  by (simp add: drawn_cards_def draw_many_take)

lemma length_initialize_decks: "length initialize_decks = 104"
  by code_simp

lemma draw_many_too_many:
  "length (deck_cards d) < n \<Longrightarrow> draw_many n d = Inl IndexError"
proof (induction n arbitrary: d)
  case 0
  then show ?case by simp
next
  case (Suc n)
  show ?case
  proof (cases "deck_cards d = []")
    case True
    then show ?thesis by (simp add: draw_def)
  next
    case False
    let ?d' = "d\<lparr>deck_cards := butlast (deck_cards d)\<rparr>"
    have "length (deck_cards ?d') < n"
      using Suc.prems False by (cases "deck_cards d" rule: rev_cases) simp_all
    from Suc.IH [OF this] False show ?thesis by (simp add: draw_def)
  qed
qed


lemma randint_range:
  "a \<le> b \<Longrightarrow> fst (randint R a b q) \<in> {a..b}"
proof -
  assume ab: "a \<le> b"
  obtain k q' where r: "random_randbelow R (nat (b - a + 1)) q = (k, q')"
    by (cases "random_randbelow R (nat (b - a + 1)) q")
  have pos: "0 < nat (b - a + 1)" using ab by simp
  have "k mod nat (b - a + 1) < nat (b - a + 1)" using pos by simp
  then have "int (k mod nat (b - a + 1)) < b - a + 1" using ab by linarith
  then show ?thesis using r by (simp add: randint_def)
qed

lemma randint_reaches:
  assumes "a \<le> s" "s \<le> b" "fst (random_randbelow R (nat (b - a + 1)) q) = nat (s - a)"
  shows "fst (randint R a b q) = s"
proof -
  obtain k q' where r: "random_randbelow R (nat (b - a + 1)) q = (k, q')"
    by (cases "random_randbelow R (nat (b - a + 1)) q")
  have k: "k = nat (s - a)" using assms(3) r by simp
  have "k < nat (b - a + 1)" using assms(1,2) k by simp
  then have "k mod nat (b - a + 1) = k" by simp
  then show ?thesis using r k assms(1) by (simp add: randint_def)
qed

lemma Deck_init_falsy:
  "Deck_init R (Some 0) q = Deck_init R None q"
  "Deck_init R None q
     = shuffle R \<lparr>deck_seed = fst (randint R 1 1000000 q), deck_cards = initialize_decks\<rparr>"
  by (simp_all add: Deck_init_def split: prod.splits)

lemma Deck_init_seeded:
  "s \<noteq> 0 \<Longrightarrow> Deck_init R (Some s) q
     = shuffle R \<lparr>deck_seed = s, deck_cards = initialize_decks\<rparr>"
  by (simp add: Deck_init_def)

lemma shuffle_fields:
  "deck_seed (fst (shuffle R d)) = deck_seed d"
  "deck_cards (fst (shuffle R d)) = fst (random_shuffle R (random_seed R (deck_seed d)) (deck_cards d))"
  by (simp_all add: shuffle_def split: prod.splits)

lemma Deck_init_full:
  assumes "\<forall>p xs. length (fst (random_shuffle R p xs)) = length xs"
  shows "length (deck_cards (fst (Deck_init R sd q))) = 104"
proof -
  have "length (deck_cards (fst (shuffle R \<lparr>deck_seed = x, deck_cards = initialize_decks\<rparr>))) = 104" for x
    using assms by (simp add: shuffle_fields length_initialize_decks)
  then show ?thesis
    by (simp add: Deck_init_def split: option.splits prod.splits)
qed

lemma full_shoe_draws:
  assumes "length (deck_cards d) = 104"
  shows "drawn_cards 104 d = Some (rev (deck_cards d))" "drawn_cards 105 d = None"
proof -
  show "drawn_cards 104 d = Some (rev (deck_cards d))"
    using drawn_cards_all [of d] assms by simp
  have "draw_many 105 d = Inl IndexError"
    by (rule draw_many_too_many) (simp add: assms)
  then show "drawn_cards 105 d = None" by (simp add: drawn_cards_def)
qed

section \<open>The circuit breaker: lemmas\<close>




section \<open>The cache table: lemmas\<close>


lemma oldest_split:
  fixes t :: api_cache
  assumes d: "distinct (map cache_key t)"
  shows "\<exists>ev. mset t = mset ev + mset (delete_oldest n t)
     \<and> delete_oldest n t = filter (\<lambda>r. r \<notin> set ev) t
     \<and> length ev = min n (length t)
     \<and> (\<forall>e \<in> set ev. \<forall>r \<in> set (delete_oldest n t). last_accessed e \<le> last_accessed r)"
proof -
  let ?s = "sort_key last_accessed t"
  let ?ev = "take n ?s"
  have dt: "distinct t" using d by (simp add: distinct_map)
  have inj: "inj_on cache_key (set t)" using d by (simp add: distinct_map)
  have ms: "mset ?s = mset t" by simp
  have ss: "set ?s = set t" by simp
  have ds: "distinct ?s" using dt by simp
  have sub: "set ?ev \<subseteq> set t" using set_take_subset [of n ?s] by simp
  have sel: "cache_key r \<in> set (selected_keys n t) \<longleftrightarrow> r \<in> set ?ev" if "r \<in> set t" for r
  proof
    assume "cache_key r \<in> set (selected_keys n t)"
    then obtain e where e: "e \<in> set ?ev" "cache_key e = cache_key r"
      by (auto simp: selected_keys_def)
    then have "e \<in> set t" using sub by blast
    with inj that e(2) have "e = r" by (auto dest: inj_onD)
    with e(1) show "r \<in> set ?ev" by simp
  next
    assume "r \<in> set ?ev"
    then show "cache_key r \<in> set (selected_keys n t)" by (simp add: selected_keys_def)
  qed
  have kept: "delete_oldest n t = filter (\<lambda>r. r \<notin> set ?ev) t"
    unfolding delete_oldest_def by (rule filter_cong) (simp_all add: sel)
  have "mset (filter (\<lambda>r. r \<in> set ?ev) t) = mset ?ev"
  proof -
    have "distinct (filter (\<lambda>r. r \<in> set ?ev) t)" using dt by simp
    moreover have "distinct ?ev" using ds by simp
    moreover have "set (filter (\<lambda>r. r \<in> set ?ev) t) = set ?ev" using sub by auto
    ultimately show ?thesis by (simp only: set_eq_iff_mset_eq_distinct [symmetric])
  qed
  then have part: "mset t = mset ?ev + mset (delete_oldest n t)"
    unfolding kept using multiset_partition [of "mset t" "\<lambda>r. r \<in> set ?ev"] by simp
  have len: "length ?ev = min n (length t)" by (simp add: min.commute)
  have ord: "last_accessed e \<le> last_accessed r"
    if e: "e \<in> set ?ev" and r: "r \<in> set (delete_oldest n t)" for e r
  proof -
    have "r \<in> set t" "r \<notin> set ?ev" using r unfolding kept by simp_all
    then have "r \<in> set ?s" by simp
    then have "r \<in> set (take n ?s @ drop n ?s)" by simp
    then have rd: "r \<in> set (drop n ?s)" using \<open>r \<notin> set ?ev\<close> by (simp only: set_append) blast
    have "sorted (map last_accessed (take n ?s @ drop n ?s))" by simp
    then have "\<forall>x \<in> set (take n ?s). \<forall>y \<in> set (drop n ?s). last_accessed x \<le> last_accessed y"
      by (simp only: map_append sorted_append) auto
    with e rd show ?thesis by blast
  qed
  from part kept len ord show ?thesis by blast
qed


lemma keys_insert_or_update:
  "map cache_key (insert_or_update k d now t)
     = (if k \<in> set (map cache_key t) then map cache_key t else map cache_key t @ [k])"
  by (simp add: insert_or_update_def comp_def if_distrib [of cache_key] cong: if_cong)

lemma length_insert_or_update:
  "length (insert_or_update k d now t)
     = (if k \<in> set (map cache_key t) then length t else length t + 1)"
  by (simp add: insert_or_update_def)

lemma distinct_insert_or_update:
  "distinct (map cache_key t) \<Longrightarrow> distinct (map cache_key (insert_or_update k d now t))"
  unfolding keys_insert_or_update by simp

lemma distinct_delete_oldest:
  "distinct (map cache_key t) \<Longrightarrow> distinct (map cache_key (delete_oldest n t))"
  by (simp add: delete_oldest_def distinct_map_filter)

lemma others_insert_or_update:
  "filter (\<lambda>r. cache_key r \<noteq> k) (insert_or_update k d now t)
     = filter (\<lambda>r. cache_key r \<noteq> k) t"
proof -
  have m: "filter (\<lambda>r. cache_key r \<noteq> k)
          (map (\<lambda>r. if cache_key r = k
                     then r\<lparr>data := d, created_at := now, last_accessed := now\<rparr>
                     else r) xs)
      = filter (\<lambda>r. cache_key r \<noteq> k) xs" for xs
    by (induction xs) simp_all
  show ?thesis
  proof (cases "k \<in> set (map cache_key t)")
    case True
    show ?thesis unfolding insert_or_update_def if_P [OF True] by (rule m)
  next
    case False
    show ?thesis unfolding insert_or_update_def if_not_P [OF False] by simp
  qed
qed

lemma entry_insert_or_update:
  "\<exists>r. r \<in> set (insert_or_update k d now t)
     \<and> cache_key r = k \<and> data r = d \<and> created_at r = now \<and> last_accessed r = now"
proof (cases "k \<in> set (map cache_key t)")
  case True
  then obtain r where r: "r \<in> set t" "cache_key r = k" by auto
  let ?r = "r\<lparr>data := d, created_at := now, last_accessed := now\<rparr>"
  have "?r \<in> set (insert_or_update k d now t)"
    using True r by (auto simp: insert_or_update_def image_iff intro!: bexI [of _ r])
  moreover have "cache_key ?r = k \<and> data ?r = d \<and> created_at ?r = now \<and> last_accessed ?r = now"
    using r by simp
  ultimately show ?thesis by blast
next
  case False
  let ?r = "\<lparr>cache_key = k, data = d, created_at = now, last_accessed = now,
      access_count = 1\<rparr>"
  have "?r \<in> set (insert_or_update k d now t)"
    unfolding insert_or_update_def if_not_P [OF False] by simp
  moreover have "cache_key ?r = k \<and> data ?r = d \<and> created_at ?r = now \<and> last_accessed ?r = now"
    by simp
  ultimately show ?thesis by blast
qed

lemma length_delete_oldest:
  assumes "distinct (map cache_key t)"
  shows "length (delete_oldest n t) = length t - min n (length t)"
proof -
  from oldest_split [OF assms, of n] obtain ev where
    ev: "mset t = mset ev + mset (delete_oldest n t)" "length ev = min n (length t)"
    by blast
  from ev(1) have "size (mset t) = size (mset ev) + size (mset (delete_oldest n t))"
    by simp
  then show ?thesis using ev(2) by simp
qed


lemma set_cache_cases:
  "set_cache k dj max_size now t =
     (case dj of
        None \<Rightarrow> (False, if max_size \<le> int (length t)
                         then delete_oldest (nat (max 1 (max_size div 10))) t else t)
      | Some d \<Rightarrow> (True, insert_or_update k d now
                         (if max_size \<le> int (length t)
                          then delete_oldest (nat (max 1 (max_size div 10))) t else t)))"
  by (simp add: set_cache_def Let_def split: option.splits)

lemma set_cache_distinct:
  "distinct (map cache_key t) \<Longrightarrow> distinct (map cache_key (snd (set_cache k dj max_size now t)))"
  by (simp add: set_cache_cases distinct_insert_or_update distinct_delete_oldest
      split: option.splits)

lemma set_cache_bound:
  assumes keys: "distinct (map cache_key t)"
    and pos: "1 \<le> max_size" and le: "int (length t) \<le> max_size"
  shows "int (length (snd (set_cache k dj max_size now t))) \<le> max_size"
proof -
  let ?n = "nat (max 1 (max_size div 10))"
  let ?t1 = "if max_size \<le> int (length t) then delete_oldest ?n t else t"
  have one: "int (length ?t1) \<le> max_size - 1"
  proof (cases "max_size \<le> int (length t)")
    case True
    then have ne: "1 \<le> length t" using pos by linarith
    have "1 \<le> ?n" by simp
    then have "1 \<le> min ?n (length t)" using ne by simp
    then have "length (delete_oldest ?n t) \<le> length t - 1"
      unfolding length_delete_oldest [OF keys] by linarith
    then show ?thesis using True le ne by simp
  next
    case False
    then show ?thesis by simp
  qed
  have le1: "int (length ?t1) \<le> max_size" using one by linarith
  have le2: "int (length (insert_or_update k d now ?t1)) \<le> max_size" for d
    unfolding length_insert_or_update using one by (simp split: if_splits)
  show ?thesis
  proof (cases dj)
    case None
    have "snd (set_cache k dj max_size now t) = ?t1"
      unfolding set_cache_cases None by (simp only: option.case snd_conv)
    then show ?thesis using le1 by (simp only:)
  next
    case (Some d)
    have "snd (set_cache k dj max_size now t) = insert_or_update k d now ?t1"
      unfolding set_cache_cases Some by (simp only: option.case snd_conv)
    then show ?thesis using le2 [of d] by (simp only:)
  qed
qed

lemma set_cache_all_bound:
  assumes pos: "1 \<le> max_size"
  shows "distinct (map cache_key t) \<Longrightarrow> int (length t) \<le> max_size \<Longrightarrow>
    distinct (map cache_key (set_cache_all max_size ops t))
    \<and> int (length (set_cache_all max_size ops t)) \<le> max_size"
proof (induction ops arbitrary: t)
  case Nil
  then show ?case by simp
next
  case (Cons op ops)
  obtain k dj now where op: "op = (k, dj, now)" by (cases op)
  have d: "distinct (map cache_key (snd (set_cache k dj max_size now t)))"
    by (rule set_cache_distinct [OF Cons.prems(1)])
  have b: "int (length (snd (set_cache k dj max_size now t))) \<le> max_size"
    by (rule set_cache_bound [OF Cons.prems(1) pos Cons.prems(2)])
  from Cons.IH [OF d b] show ?case by (simp add: op)
qed

section \<open>Rejected moves\<close>

text \<open>
  Claim C4. When the caller is not the current player (or nobody is to move), or the
  current hand is not ACTIVE, each of hit, stand, double_down, split and surrender
  returns its invalid-move value (\<open>None\<close> or \<open>False\<close>) and the game is the
  same as before: phase, shoe, hands and turn index. The dealer is taken to have a hand,
  as every game built by the constructor has.
\<close>

theorem invalid_move_leaves_state:
  assumes dealer_hand: "hands (dealer g) \<noteq> []"
    and invalid: "get_current_player g = None
     \<or> (\<exists>s. get_current_player g = Some s
          \<and> (user_id (player_at g s) \<noteq> uid
             \<or> (\<exists>h. get_current_hand (player_at g s) = Inr h \<and> status h \<noteq> ACTIVE)))"
  shows "hit uid g = Returned None g
    \<and> stand uid g = Returned False g
    \<and> double_down uid g = Returned None g
    \<and> split uid g = Returned False g
    \<and> surrender uid g = Returned False g"
proof -
  consider (none) "get_current_player g = None"
    | (other) s where "get_current_player g = Some s" "user_id (player_at g s) \<noteq> uid"
    | (inactive) s h where "get_current_player g = Some s"
        "get_current_hand (player_at g s) = Inr h" "status h \<noteq> ACTIVE"
    using invalid by auto
  then show ?thesis
  proof cases
    case none
    then show ?thesis
      by (simp add: hit_def stand_def double_down_def split_def surrender_def)
  next
    case other
    then show ?thesis
      by (simp add: hit_def stand_def double_down_def split_def surrender_def Let_def)
  next
    case inactive
    obtain b where b: "can_dealer_stand g = Inr b"
      using can_dealer_stand_total [OF dealer_hand] by blast
    have "hit uid g = Returned None g"
      using inactive b by (cases b) (auto simp: hit_def Let_def)
    moreover have "stand uid g = Returned False g"
      using inactive b by (cases b) (auto simp: stand_def Let_def)
    moreover have "double_down uid g = Returned None g" "split uid g = Returned False g"
      "surrender uid g = Returned False g"
      using inactive by (simp_all add: double_down_def split_def surrender_def Let_def)
    ultimately show ?thesis by simp
  qed
qed

theorem invalid_move_leaves_state_witness:
  "hands (dealer aces_game) \<noteq> []
   \<and> get_current_player aces_game = Some (PlayerSeat 0)
   \<and> user_id (player_at aces_game (PlayerSeat 0)) \<noteq> 8
   \<and> hit 8 aces_game = Returned None aces_game
   \<and> stand 8 aces_game = Returned False aces_game
   \<and> double_down 8 aces_game = Returned None aces_game
   \<and> split 8 aces_game = Returned False aces_game
   \<and> surrender 8 aces_game = Returned False aces_game
   \<and> get_current_hand
         (player_at (update_current_hand (PlayerSeat 0) (\<lambda>h. h\<lparr>status := STAND\<rparr>) aces_game)
            (PlayerSeat 0))
       = Inr \<lparr>cards = [\<lparr>suit = Spades, rank = Ace\<rparr>, \<lparr>suit = Hearts, rank = Ace\<rparr>],
              status = STAND, is_split = False, is_split_aces = False\<rparr>
   \<and> hit 7 (update_current_hand (PlayerSeat 0) (\<lambda>h. h\<lparr>status := STAND\<rparr>) aces_game)
       = Returned None (update_current_hand (PlayerSeat 0) (\<lambda>h. h\<lparr>status := STAND\<rparr>) aces_game)
   \<and> split 7 (update_current_hand (PlayerSeat 0) (\<lambda>h. h\<lparr>status := STAND\<rparr>) aces_game)
       = Returned False (update_current_hand (PlayerSeat 0) (\<lambda>h. h\<lparr>status := STAND\<rparr>) aces_game)"
  using invalid_move_leaves_state [of aces_game 8]
    invalid_move_leaves_state
      [of "update_current_hand (PlayerSeat 0) (\<lambda>h. h\<lparr>status := STAND\<rparr>) aces_game" 7]
  by (simp add: aces_game_def get_current_player_def get_current_hand_def
      update_current_hand_def update_hand_def)

section \<open>Splitting a pair of Aces\<close>

text \<open>
  Claim C1, as the code has it. The player to move holds an ACTIVE pair of Aces and no
  other ACTIVE hand; the shoe has two cards and the dealer a hand. Then split returns
  True; the pair is replaced by two hands, each made of one of the Aces and exactly one
  newly drawn card (two cards each), both SPLIT_ACES; the turn is no longer at this
  seat; and whatever moves follow, by anybody, the hands of this seat stay as they are.
\<close>

theorem split_aces_ends_both_hands:
  assumes playing: "phase g = PLAYING"
    and seat: "current_turn_index g = i" "i < length (players g)"
    and player: "players g ! i = p" "user_id p = uid" "\<not> is_dealer p"
    and hand: "current_hand_index p = k" "k < length (hands p)" "hands p ! k = h"
    and aces: "cards h = [a1, a2]" "rank a1 = Ace" "rank a2 = Ace" "status h = ACTIVE"
    and others: "\<forall>j < length (hands p). j \<noteq> k \<longrightarrow> status (hands p ! j) \<noteq> ACTIVE"
    and shoe: "deck_cards (deck g) = rest @ [c2, c1]"
    and dealer_hand: "hands (dealer g) \<noteq> []"
  shows "\<exists>g'. split uid g = Returned True g'
     \<and> hands (players g' ! i) =
         take k (hands p)
         @ [\<lparr>cards = [a1, c1], status = SPLIT_ACES, is_split = True, is_split_aces = True\<rparr>,
            \<lparr>cards = [a2, c2], status = SPLIT_ACES, is_split = True, is_split_aces = True\<rparr>]
         @ drop (k + 1) (hands p)
     \<and> deck_cards (deck g') = rest
     \<and> get_current_player g' \<noteq> Some (PlayerSeat i)
     \<and> (\<forall>ms. players (perform_all ms g') ! i = players g' ! i)"
proof -
  let ?H1 = "\<lparr>cards = [a1, c1], status = SPLIT_ACES, is_split = True, is_split_aces = True\<rparr>"
  let ?H2 = "\<lparr>cards = [a2, c2], status = SPLIT_ACES, is_split = True, is_split_aces = True\<rparr>"
  let ?H = "take k (hands p) @ [?H1, ?H2] @ drop (k + 1) (hands p)"
  let ?d1 = "(deck g)\<lparr>deck_cards := rest @ [c2]\<rparr>"
  let ?d2 = "(deck g)\<lparr>deck_cards := rest\<rparr>"
  let ?g3 = "g\<lparr>deck := ?d2, players := (players g)[i := p\<lparr>hands := ?H\<rparr>]\<rparr>"
  have cur: "get_current_player g = Some (PlayerSeat i)"
    using playing seat by (simp add: get_current_player_def)
  have gch: "get_current_hand p = Inr h"
    using hand by (simp add: get_current_hand_def)
  have cs: "can_split (cards h)"
    using aces by (simp add: can_split_def settings_defs)
  have d1: "draw (deck g) = Inr (c1, ?d1)"
    using shoe by (simp add: draw_def butlast_append)
  have d2: "draw ?d1 = Inr (c2, ?d2)"
    by (simp add: draw_def)
  have lenk: "length (take k (hands p)) = k" using hand(2) by simp
  have sp: "split uid g = and_then (advance_turn ?g3) (Returned True)"
    using cur player gch cs aces d1 d2 hand(1,2) seat(2)
    by (simp add: split_def Let_def list_insert_after_update update_hand_def
        update_in_middle [of k "take k (hands p)"])
  have fin: "all_hands_finished (p\<lparr>hands := ?H\<rparr>)"
  proof -
    have "status x \<noteq> ACTIVE" if "x \<in> set (take k (hands p))" for x
    proof -
      from that obtain j where "j < k" "x = hands p ! j"
        using hand(2) by (auto simp: in_set_conv_nth)
      then show ?thesis using others hand(2) by auto
    qed
    moreover have "status x \<noteq> ACTIVE" if "x \<in> set (drop (k + 1) (hands p))" for x
    proof -
      from that obtain j where "j < length (hands p) - (k + 1)" "x = hands p ! (k + 1 + j)"
        by (auto simp: in_set_conv_nth)
      then show ?thesis using others by auto
    qed
    ultimately show ?thesis
      by (auto simp: all_hands_finished_def list_all_iff)
  qed
  have cur3: "get_current_player ?g3 = Some (PlayerSeat i)"
    using playing seat by (simp add: get_current_player_def)
  have at3: "advance_turn ?g3 = advance_to_next_player ?g3"
    using cur3 fin seat(2) by (subst advance_turn.simps) (simp add: Let_def)
  have nb: "\<not> check_all_players_busted_or_surrendered ?g3"
  proof -
    have "p\<lparr>hands := ?H\<rparr> \<in> set (players ?g3)"
      using seat(2) by (simp add: set_update_memI)
    moreover have "?H1 \<in> set (hands (p\<lparr>hands := ?H\<rparr>))" by simp
    ultimately show ?thesis
      unfolding check_all_players_busted_or_surrendered_def list_all_iff
      by (metis (no_types, lifting) HandStatus.distinct(5) insertCI
          PlayerHand.select_convs(2) empty_iff empty_set)
  qed
  obtain g' where g': "advance_to_next_player ?g3 = Returned () g'"
    "players g' = players ?g3" "deck g' = deck ?g3" "behind i g'"
    using advance_to_next_player_seated [of ?g3 i] playing seat player(3) dealer_hand nb
    by auto
  have "split uid g = Returned True g'"
    unfolding sp at3 g'(1) by simp
  moreover have "hands (players g' ! i) = ?H"
    using g'(2) seat(2) by simp
  moreover have "deck_cards (deck g') = rest"
    using g'(3) by simp
  moreover have "get_current_player g' \<noteq> Some (PlayerSeat i)"
    using current_seat_not_behind [OF g'(4)] by blast
  moreover have "\<forall>ms. players (perform_all ms g') ! i = players g' ! i"
    using perform_all_behind [OF g'(4)] by simp
  ultimately show ?thesis by blast
qed

theorem split_aces_ends_both_hands_witness:
  "\<exists>g'. split 7 aces_game = Returned True g'
     \<and> hands (players g' ! 0) =
         [\<lparr>cards = [\<lparr>suit = Spades, rank = Ace\<rparr>, \<lparr>suit = Diamonds, rank = Nine\<rparr>],
           status = SPLIT_ACES, is_split = True, is_split_aces = True\<rparr>,
          \<lparr>cards = [\<lparr>suit = Hearts, rank = Ace\<rparr>, \<lparr>suit = Clubs, rank = King\<rparr>],
           status = SPLIT_ACES, is_split = True, is_split_aces = True\<rparr>]
     \<and> deck_cards (deck g') = [\<lparr>suit = Spades, rank = Five\<rparr>, \<lparr>suit = Hearts, rank = Six\<rparr>]
     \<and> get_current_player g' \<noteq> Some (PlayerSeat 0)
     \<and> (\<forall>ms. players (perform_all ms g') ! 0 = players g' ! 0)"
  using split_aces_ends_both_hands [where g = aces_game and i = 0 and uid = 7 and k = 0
      and p = "players aces_game ! 0"
      and h = "hands (players aces_game ! 0) ! 0"
      and ?a1.0 = "\<lparr>suit = Spades, rank = Ace\<rparr>" and ?a2.0 = "\<lparr>suit = Hearts, rank = Ace\<rparr>"
      and rest = "[\<lparr>suit = Spades, rank = Five\<rparr>, \<lparr>suit = Hearts, rank = Six\<rparr>]"
      and ?c2.0 = "\<lparr>suit = Clubs, rank = King\<rparr>" and ?c1.0 = "\<lparr>suit = Diamonds, rank = Nine\<rparr>"]
  by (simp add: aces_game_def)

text \<open>
  The claim as it is written fails: after a split of Aces each of the two hands holds two
  cards, not one.
\<close>

theorem split_aces_two_cards_counterexample:
  "returned_value (split 7 aces_game) = Some True
   \<and> map (\<lambda>h. (length (cards h), status h)) (hands (players (state_of (split 7 aces_game)) ! 0))
       = [(2, SPLIT_ACES), (2, SPLIT_ACES)]
   \<and> \<not> list_all (\<lambda>h. length (cards h) = 1) (hands (players (state_of (split 7 aces_game)) ! 0))"
  by code_simp

section \<open>The dealer hits below 17 and on a soft 17\<close>




section \<open>When no seat is left to play\<close>

text \<open>
  Claim C6. The players are moving, at least one is seated, no seat has an unfinished
  hand, and the dealer holds cards. Then turn advancement returns without drawing a card
  and without changing a card of the dealer, and it goes directly to RESULTS, changing
  nothing but the phase, if and only if every hand of every seated player is BUST or
  SURRENDER. Otherwise the phase becomes DEALER_TURN: the turn index is moved past the
  seats, the phase is set to DEALER_TURN, and the result is that of the dealer's entry
  check run in that state, which leaves the game in DEALER_TURN when the dealer must hit
  and stands the dealer's hand when the dealer's rule forbids a hit.
\<close>

theorem no_seat_left_results_or_dealer:
  assumes playing: "phase g = PLAYING"
    and seated: "players g \<noteq> []" "\<forall>p \<in> set (players g). \<not> is_dealer p"
    and finished: "\<forall>p \<in> set (players g). all_hands_finished p"
    and dealer_hand: "hands (dealer g) \<noteq> []" "cards (hands (dealer g) ! 0) \<noteq> []"
  shows "\<exists>g'. advance_turn g = Returned () g'
     \<and> deck g' = deck g \<and> players g' = players g
     \<and> map cards (hands (dealer g')) = map cards (hands (dealer g))
     \<and> (g' = g\<lparr>phase := RESULTS\<rparr> \<longleftrightarrow>
          (\<forall>p \<in> set (players g). \<forall>h \<in> set (hands p). status h = BUST \<or> status h = SURRENDER))
     \<and> (\<not> (\<forall>p \<in> set (players g). \<forall>h \<in> set (hands p). status h = BUST \<or> status h = SURRENDER)
          \<longrightarrow>
          (\<exists>n. length (players g) \<le> n \<and> current_turn_index g < n
             \<and> advance_turn g
                 = check_dealer_auto_stand (g\<lparr>current_turn_index := n, phase := DEALER_TURN\<rparr>)
             \<and> current_turn_index g' = n)
          \<and> (if can_dealer_hit g = Inr True
              then phase g' = DEALER_TURN \<and> dealer g' = dealer g
              else phase g' = RESULTS
                   \<and> dealer g' = update_hand 0 (\<lambda>h. h\<lparr>status := STAND\<rparr>) (dealer g)))"
proof -
  let ?n = "skip_finished (players g) (current_turn_index g + 1)"
  let ?g1 = "g\<lparr>current_turn_index := ?n\<rparr>"
  let ?g2 = "g\<lparr>current_turn_index := ?n, phase := DEALER_TURN\<rparr>"
  let ?out = "\<forall>p \<in> set (players g). \<forall>h \<in> set (hands p). status h = BUST \<or> status h = SURRENDER"
  have at: "advance_turn g = advance_to_next_player g"
  proof (cases "get_current_player g")
    case None
    then show ?thesis by (subst advance_turn.simps) simp
  next
    case (Some s)
    then have "s = PlayerSeat (current_turn_index g)" "current_turn_index g < length (players g)"
      using playing by (auto simp: get_current_player_def split: if_splits)
    then have "all_hands_finished (player_at g s)" using finished by simp
    then show ?thesis using Some by (subst advance_turn.simps) simp
  qed
  have nd: "\<not> is_dealer (player_at g s)" if "get_current_player g = Some s" for s
  proof -
    from that have "s = PlayerSeat (current_turn_index g)" "current_turn_index g < length (players g)"
      using playing by (auto simp: get_current_player_def split: if_splits)
    then show ?thesis using seated(2) by simp
  qed
  have past: "length (players g) \<le> ?n"
    by (rule skip_finished_past_end [OF finished])
  have further: "current_turn_index g < ?n"
    using skip_finished_ge [of "current_turn_index g + 1" "players g"] by simp
  have cd: "check_dealer_auto_stand ?g2 = Returned ()
       (if can_dealer_hit ?g2 = Inr True \<or> cards (hands (dealer ?g2) ! 0) = [] then ?g2
        else ?g2\<lparr>dealer := update_hand 0 (\<lambda>h. h\<lparr>status := STAND\<rparr>) (dealer ?g2),
               phase := RESULTS\<rparr>)"
    using dealer_hand(1) by (intro check_dealer_auto_stand_cases) simp_all
  have ch: "can_dealer_hit ?g2 = can_dealer_hit g"
    by (rule can_dealer_hit_dealer) simp
  have eq: "advance_to_next_player g =
      (if check_all_players_busted_or_surrendered g then Returned () (g\<lparr>phase := RESULTS\<rparr>)
       else check_dealer_auto_stand ?g2)"
    using nd past by (auto simp: advance_to_next_player_def Let_def split: option.splits)
  show ?thesis
  proof (cases "check_all_players_busted_or_surrendered g")
    case True
    then have out: ?out using check_all_players_iff [OF seated(1)] by simp
    have "advance_turn g = Returned () (g\<lparr>phase := RESULTS\<rparr>)"
      unfolding at eq using True by simp
    then show ?thesis using out by simp
  next
    case False
    then have nb: "\<not> ?out"
      using check_all_players_iff [OF seated(1)] by simp
    have mc: "map cards (hands (update_hand 0 (\<lambda>h. h\<lparr>status := STAND\<rparr>) (dealer g)))
        = map cards (hands (dealer g))"
      using dealer_hand(1) by (cases "hands (dealer g)") (simp_all add: update_hand_def)
    define g' where "g' = (if can_dealer_hit g = Inr True then ?g2
        else ?g2\<lparr>dealer := update_hand 0 (\<lambda>h. h\<lparr>status := STAND\<rparr>) (dealer g),
               phase := RESULTS\<rparr>)"
    have ret: "check_dealer_auto_stand ?g2 = Returned () g'"
      unfolding cd ch g'_def using dealer_hand(2) by simp
    have adv: "advance_turn g = check_dealer_auto_stand ?g2"
      unfolding at eq using False by simp
    have idx: "current_turn_index g' = ?n" by (simp add: g'_def)
    then have ne: "g' \<noteq> g\<lparr>phase := RESULTS\<rparr>"
      using further by auto
    have fields: "deck g' = deck g" "players g' = players g"
      "map cards (hands (dealer g')) = map cards (hands (dealer g))"
      using mc by (simp_all add: g'_def)
    have rule: "if can_dealer_hit g = Inr True
              then phase g' = DEALER_TURN \<and> dealer g' = dealer g
              else phase g' = RESULTS
                   \<and> dealer g' = update_hand 0 (\<lambda>h. h\<lparr>status := STAND\<rparr>) (dealer g)"
      by (simp add: g'_def)
    have ex: "\<exists>n. length (players g) \<le> n \<and> current_turn_index g < n
             \<and> advance_turn g
                 = check_dealer_auto_stand (g\<lparr>current_turn_index := n, phase := DEALER_TURN\<rparr>)
             \<and> current_turn_index g' = n"
      using past further adv idx by blast
    have "advance_turn g = Returned () g'" using adv ret by simp
    with fields ne nb ex rule show ?thesis by blast
  qed
qed


theorem no_seat_left_results_or_dealer_witness:
  "(\<exists>g'. advance_turn stood_game = Returned () g'
      \<and> deck g' = deck stood_game
      \<and> players g' = players stood_game
      \<and> g' \<noteq> stood_game\<lparr>phase := RESULTS\<rparr>
      \<and> (\<exists>n. length (players stood_game) \<le> n
           \<and> advance_turn stood_game
               = check_dealer_auto_stand
                   (stood_game\<lparr>current_turn_index := n, phase := DEALER_TURN\<rparr>)
           \<and> current_turn_index g' = n)
      \<and> phase g' = RESULTS
      \<and> dealer g' = update_hand 0 (\<lambda>h. h\<lparr>status := STAND\<rparr>) (dealer stood_game))
   \<and> advance_turn (update_current_hand (PlayerSeat 0) (\<lambda>h. h\<lparr>status := BUST\<rparr>) stood_game)
       = Returned ()
           ((update_current_hand (PlayerSeat 0) (\<lambda>h. h\<lparr>status := BUST\<rparr>) stood_game)
              \<lparr>phase := RESULTS\<rparr>)"
proof -
  define g2 where "g2 = update_current_hand (PlayerSeat 0) (\<lambda>h. h\<lparr>status := BUST\<rparr>) stood_game"
  have f1: "phase stood_game = PLAYING" "players stood_game \<noteq> []"
    "\<forall>p \<in> set (players stood_game). \<not> is_dealer p"
    "\<forall>p \<in> set (players stood_game). all_hands_finished p"
    "hands (dealer stood_game) \<noteq> []" "cards (hands (dealer stood_game) ! 0) \<noteq> []"
    by (simp_all add: stood_game_def all_hands_finished_def)
  have f2: "phase g2 = PLAYING" "players g2 \<noteq> []"
    "\<forall>p \<in> set (players g2). \<not> is_dealer p"
    "\<forall>p \<in> set (players g2). all_hands_finished p"
    "hands (dealer g2) \<noteq> []" "cards (hands (dealer g2) ! 0) \<noteq> []"
    by (simp_all add: g2_def stood_game_def all_hands_finished_def update_current_hand_def
        update_hand_def)
  have n1: "\<not> (\<forall>p \<in> set (players stood_game). \<forall>h \<in> set (hands p).
      status h = BUST \<or> status h = SURRENDER)"
    by (simp add: stood_game_def)
  have n2: "\<forall>p \<in> set (players g2). \<forall>h \<in> set (hands p). status h = BUST \<or> status h = SURRENDER"
    by (simp add: g2_def stood_game_def update_current_hand_def update_hand_def)
  have ch: "can_dealer_hit stood_game \<noteq> Inr True"
    by code_simp
  have p1: "\<exists>g'. advance_turn stood_game = Returned () g'
      \<and> deck g' = deck stood_game
      \<and> players g' = players stood_game
      \<and> g' \<noteq> stood_game\<lparr>phase := RESULTS\<rparr>
      \<and> (\<exists>n. length (players stood_game) \<le> n
           \<and> advance_turn stood_game
               = check_dealer_auto_stand
                   (stood_game\<lparr>current_turn_index := n, phase := DEALER_TURN\<rparr>)
           \<and> current_turn_index g' = n)
      \<and> phase g' = RESULTS
      \<and> dealer g' = update_hand 0 (\<lambda>h. h\<lparr>status := STAND\<rparr>) (dealer stood_game)"
    using no_seat_left_results_or_dealer [OF f1] n1 unfolding if_not_P [OF ch] by blast
  have p2: "advance_turn g2 = Returned () (g2\<lparr>phase := RESULTS\<rparr>)"
    using no_seat_left_results_or_dealer [OF f2] n2 by blast
  from p1 p2 show ?thesis unfolding g2_def by blast
qed

section \<open>The seats of a game\<close>

text \<open>
  Claim C10. In every state a game can reach from a constructor call with a limit that
  is not negative, the players are at most \<open>max_players\<close>, no two of them have the
  same id, and the dealer's id is not among them. \<open>add_player\<close> returns False and
  leaves the game as it is when the phase is not LOBBY, the lobby is full, the id is
  seated already or the id is the dealer's; otherwise it returns True and appends the
  new player.
\<close>

theorem seats_within_limit_and_distinct:
  "(reachable g \<and> 0 \<le> max_players g \<longrightarrow>
       int (length (players g)) \<le> max_players g
       \<and> distinct (map user_id (players g))
       \<and> dealer_id g \<notin> user_id ` set (players g)
       \<and> user_id (dealer g) \<notin> user_id ` set (players g))
   \<and> (phase g \<noteq> LOBBY \<or> max_players g \<le> int (length (players g))
        \<or> uid \<in> user_id ` set (players g) \<or> uid = dealer_id g \<longrightarrow>
        add_player uid uname g = Returned False g)
   \<and> (phase g = LOBBY \<and> int (length (players g)) < max_players g
        \<and> uid \<notin> user_id ` set (players g) \<and> uid \<noteq> dealer_id g \<longrightarrow>
        add_player uid uname g
          = Returned True (g\<lparr>players := players g @ [new_player uid uname False]\<rparr>))"
proof -
  have a: "int (length (players g)) \<le> max_players g
       \<and> distinct (map user_id (players g))
       \<and> dealer_id g \<notin> user_id ` set (players g)
       \<and> user_id (dealer g) \<notin> user_id ` set (players g)"
    if "reachable g" "0 \<le> max_players g"
    using reachable_roster_ok [OF that] by (auto simp: roster_def roster_ok_def)
  have b: "add_player uid uname g = Returned False g"
    if "phase g \<noteq> LOBBY \<or> max_players g \<le> int (length (players g))
        \<or> uid \<in> user_id ` set (players g) \<or> uid = dealer_id g"
    using that by (auto simp: add_player_def list_ex_iff)
  have c: "add_player uid uname g
          = Returned True (g\<lparr>players := players g @ [new_player uid uname False]\<rparr>)"
    if "phase g = LOBBY \<and> int (length (players g)) < max_players g
        \<and> uid \<notin> user_id ` set (players g) \<and> uid \<noteq> dealer_id g"
    using that by (auto simp: add_player_def list_ex_iff)
  from a b c show ?thesis by blast
qed


theorem seats_within_limit_and_distinct_witness:
  "reachable (state_of (add_player 7 ''ann'' lobby_game))
   \<and> players (state_of (add_player 7 ''ann'' lobby_game)) = [new_player 7 ''ann'' False]
   \<and> max_players (state_of (add_player 7 ''ann'' lobby_game)) = 3
   \<and> int (length (players (state_of (add_player 7 ''ann'' lobby_game))))
       \<le> max_players (state_of (add_player 7 ''ann'' lobby_game))
   \<and> distinct (map user_id (players (state_of (add_player 7 ''ann'' lobby_game))))
   \<and> add_player 7 ''bob'' (state_of (add_player 7 ''ann'' lobby_game))
       = Returned False (state_of (add_player 7 ''ann'' lobby_game))
   \<and> add_player 100 ''host'' (state_of (add_player 7 ''ann'' lobby_game))
       = Returned False (state_of (add_player 7 ''ann'' lobby_game))
   \<and> add_player 8 ''bob'' (state_of (add_player 7 ''ann'' lobby_game))
       = Returned True ((state_of (add_player 7 ''ann'' lobby_game))
           \<lparr>players := players (state_of (add_player 7 ''ann'' lobby_game))
              @ [new_player 8 ''bob'' False]\<rparr>)"
proof -
  define G where "G = state_of (add_player 7 ''ann'' lobby_game)"
  have r0: "reachable lobby_game"
    unfolding lobby_game_def by (rule reachable.init)
  have r: "reachable G"
    unfolding G_def by (rule reachable.add_player [OF r0])
  have f: "players G = [new_player 7 ''ann'' False]" "max_players G = 3" "phase G = LOBBY"
    "dealer_id G = 100"
    by (simp_all add: G_def lobby_game_def BlackjackGame_init_def add_player_def)
  have u: "user_id (new_player 7 ''ann'' False) = 7"
    by (simp add: new_player_def)
  have a: "int (length (players G)) \<le> max_players G \<and> distinct (map user_id (players G))"
    using seats_within_limit_and_distinct [of G 7 "''bob''"] r f by simp
  have b: "add_player 7 ''bob'' G = Returned False G"
    using seats_within_limit_and_distinct [of G 7 "''bob''"] f u by simp
  have c: "add_player 100 ''host'' G = Returned False G"
    using seats_within_limit_and_distinct [of G 100 "''host''"] f by simp
  have d: "add_player 8 ''bob'' G
      = Returned True (G\<lparr>players := players G @ [new_player 8 ''bob'' False]\<rparr>)"
    using seats_within_limit_and_distinct [of G 8 "''bob''"] f u by simp
  from r f(1,2) a b c d show ?thesis unfolding G_def by blast
qed

section \<open>The seed of the shoe\<close>

text \<open>
  Claim C9. The constructor treats the seed 0 as no seed: built in the same state of the
  generator, the shoe for 0 is the shoe for \<open>None\<close>, and its seed is the number that
  \<open>randint(1, 1000000)\<close> draws in that state, a number in 1..1000000. For a seed other
  than 0 the state of the generator plays no part: two shoes built with the same seed,
  in whatever states the generator is, are equal, keep that seed, and give the same
  cards draw after draw. When the shuffle of the generator keeps the length of the list,
  every shoe gives 104 cards, the shuffled list from its end, and a 105th draw raises; two
  shoes built with seed 0 in two states give the same 104 cards exactly when the two
  numbers drawn shuffle the cards alike, so they are not guaranteed to: whenever the
  generator can give every number below 1000000 and two seeds in 1..1000000 shuffle the
  cards differently, there are two shoes built with seed 0 whose draws differ.
\<close>

theorem seed_zero_is_redrawn:
  fixes R :: "'r Random"
  shows
  "Deck_init R (Some 0) q = Deck_init R None q
   \<and> deck_seed (fst (Deck_init R (Some 0) q)) = fst (randint R 1 1000000 q)
   \<and> deck_seed (fst (Deck_init R (Some 0) q)) \<in> {1..1000000}
   \<and> Deck_init R (Some 0) q
       = shuffle R \<lparr>deck_seed = fst (randint R 1 1000000 q), deck_cards = initialize_decks\<rparr>
   \<and> (s \<noteq> 0 \<longrightarrow>
        Deck_init R (Some s) q = Deck_init R (Some s) q'
        \<and> Deck_init R (Some s) q = shuffle R \<lparr>deck_seed = s, deck_cards = initialize_decks\<rparr>
        \<and> deck_seed (fst (Deck_init R (Some s) q)) = s
        \<and> (\<forall>n. draw_many n (fst (Deck_init R (Some s) q))
                 = draw_many n (fst (Deck_init R (Some s) q'))))
   \<and> ((\<forall>p xs. length (fst (random_shuffle R p xs)) = length xs) \<longrightarrow>
        (\<forall>sd p. drawn_cards 104 (fst (Deck_init R sd p))
                   = Some (rev (deck_cards (fst (Deck_init R sd p))))
               \<and> drawn_cards 105 (fst (Deck_init R sd p)) = None)
        \<and> (drawn_cards 104 (fst (Deck_init R (Some 0) q))
             = drawn_cards 104 (fst (Deck_init R (Some 0) q'))
           \<longleftrightarrow> fst (random_shuffle R (random_seed R (fst (randint R 1 1000000 q))) initialize_decks)
               = fst (random_shuffle R (random_seed R (fst (randint R 1 1000000 q'))) initialize_decks))
        \<and> ((\<forall>k<1000000. \<exists>p. fst (random_randbelow R 1000000 p) = k)
            \<and> (\<exists>s1 s2. 1 \<le> s1 \<and> s1 \<le> 1000000 \<and> 1 \<le> s2 \<and> s2 \<le> 1000000
                 \<and> fst (random_shuffle R (random_seed R s1) initialize_decks)
                   \<noteq> fst (random_shuffle R (random_seed R s2) initialize_decks))
            \<longrightarrow> (\<exists>p p'. drawn_cards 104 (fst (Deck_init R (Some 0) p))
                          \<noteq> drawn_cards 104 (fst (Deck_init R (Some 0) p')))))"
proof -
  let ?D0 = "\<lambda>p. fst (Deck_init R (Some 0) p)"
  let ?sh = "\<lambda>x. fst (random_shuffle R (random_seed R x) initialize_decks)"
  have a1: "Deck_init R (Some 0) q = Deck_init R None q"
    by (rule Deck_init_falsy(1))
  have a4: "Deck_init R (Some 0) p
       = shuffle R \<lparr>deck_seed = fst (randint R 1 1000000 p), deck_cards = initialize_decks\<rparr>" for p
    by (simp only: Deck_init_falsy)
  have a2: "deck_seed (?D0 p) = fst (randint R 1 1000000 p)" for p
    by (simp add: a4 shuffle_fields)
  have a3: "deck_seed (?D0 q) \<in> {1..1000000}"
    unfolding a2 by (rule randint_range) simp
  have cs0: "deck_cards (?D0 p) = ?sh (fst (randint R 1 1000000 p))" for p
    by (simp add: a4 shuffle_fields)
  have b: "Deck_init R (Some s) q = Deck_init R (Some s) q'
        \<and> Deck_init R (Some s) q = shuffle R \<lparr>deck_seed = s, deck_cards = initialize_decks\<rparr>
        \<and> deck_seed (fst (Deck_init R (Some s) q)) = s
        \<and> (\<forall>n. draw_many n (fst (Deck_init R (Some s) q))
                 = draw_many n (fst (Deck_init R (Some s) q')))" if "s \<noteq> 0"
    using that by (simp add: Deck_init_seeded shuffle_fields)
  have c: "(\<forall>sd p. drawn_cards 104 (fst (Deck_init R sd p))
                   = Some (rev (deck_cards (fst (Deck_init R sd p))))
               \<and> drawn_cards 105 (fst (Deck_init R sd p)) = None)
        \<and> (drawn_cards 104 (?D0 q) = drawn_cards 104 (?D0 q')
           \<longleftrightarrow> ?sh (fst (randint R 1 1000000 q)) = ?sh (fst (randint R 1 1000000 q')))
        \<and> ((\<forall>k<1000000. \<exists>p. fst (random_randbelow R 1000000 p) = k)
            \<and> (\<exists>s1 s2. 1 \<le> s1 \<and> s1 \<le> 1000000 \<and> 1 \<le> s2 \<and> s2 \<le> 1000000
                 \<and> ?sh s1 \<noteq> ?sh s2)
            \<longrightarrow> (\<exists>p p'. drawn_cards 104 (?D0 p) \<noteq> drawn_cards 104 (?D0 p')))"
    if len: "\<forall>p xs. length (fst (random_shuffle R p xs)) = length xs"
  proof -
    have dr: "drawn_cards 104 (fst (Deck_init R sd p))
                   = Some (rev (deck_cards (fst (Deck_init R sd p))))"
      "drawn_cards 105 (fst (Deck_init R sd p)) = None" for sd p
      by (rule full_shoe_draws, rule Deck_init_full [OF len])+
    have iff: "drawn_cards 104 (?D0 p) = drawn_cards 104 (?D0 p')
           \<longleftrightarrow> ?sh (fst (randint R 1 1000000 p)) = ?sh (fst (randint R 1 1000000 p'))" for p p'
      unfolding dr cs0 by simp
    have ex: "\<exists>p p'. drawn_cards 104 (?D0 p) \<noteq> drawn_cards 104 (?D0 p')"
      if onto: "\<forall>k<1000000. \<exists>p. fst (random_randbelow R 1000000 p) = k"
        and two: "\<exists>s1 s2. 1 \<le> s1 \<and> s1 \<le> 1000000 \<and> 1 \<le> s2 \<and> s2 \<le> 1000000 \<and> ?sh s1 \<noteq> ?sh s2"
    proof -
      from two obtain s1 s2 where s: "1 \<le> s1" "s1 \<le> 1000000" "1 \<le> s2" "s2 \<le> 1000000"
        and ne: "?sh s1 \<noteq> ?sh s2" by blast
      have reach: "\<exists>p. fst (randint R 1 1000000 p) = x" if "1 \<le> x" "x \<le> 1000000" for x
      proof -
        have "nat (x - 1) < 1000000" using that by simp
        with onto obtain p where "fst (random_randbelow R 1000000 p) = nat (x - 1)" by blast
        then have "fst (random_randbelow R (nat (1000000 - 1 + 1)) p) = nat (x - 1)" by simp
        from randint_reaches [OF that this] show ?thesis ..
      qed
      from reach [OF s(1,2)] obtain p1 where p1: "fst (randint R 1 1000000 p1) = s1" ..
      from reach [OF s(3,4)] obtain p2 where p2: "fst (randint R 1 1000000 p2) = s2" ..
      have "drawn_cards 104 (?D0 p1) \<noteq> drawn_cards 104 (?D0 p2)"
        unfolding iff p1 p2 by (rule ne)
      then show ?thesis by blast
    qed
    from dr iff ex show ?thesis by blast
  qed
  from a1 a2 a3 a4 b c show ?thesis by blast
qed


theorem seed_zero_is_redrawn_witness:
  "Deck_init counter_random (Some 0) 1 = Deck_init counter_random None 1
   \<and> deck_seed (fst (Deck_init counter_random (Some 0) 1)) \<in> {1..1000000}
   \<and> Deck_init counter_random (Some 5) 1 = Deck_init counter_random (Some 5) 2
   \<and> deck_seed (fst (Deck_init counter_random (Some 5) 1)) = 5
   \<and> drawn_cards 104 (fst (Deck_init counter_random (Some 5) 1))
       = Some (rev (deck_cards (fst (Deck_init counter_random (Some 5) 1))))
   \<and> drawn_cards 105 (fst (Deck_init counter_random (Some 5) 1)) = None
   \<and> (\<exists>p p'. drawn_cards 104 (fst (Deck_init counter_random (Some 0) p))
               \<noteq> drawn_cards 104 (fst (Deck_init counter_random (Some 0) p')))"
proof -
  have len: "\<forall>p xs. length (fst (random_shuffle counter_random p xs)) = length xs"
    by (simp add: counter_random_def)
  have onto: "\<forall>k<1000000. \<exists>p. fst (random_randbelow counter_random 1000000 p) = k"
  proof (intro allI impI)
    fix k :: nat assume "k < 1000000"
    then have "fst (random_randbelow counter_random 1000000 k) = k"
      by (simp add: counter_random_def)
    then show "\<exists>p. fst (random_randbelow counter_random 1000000 p) = k" ..
  qed
  have "hd (rotate 1 initialize_decks) \<noteq> hd (rotate 2 initialize_decks)"
    by code_simp
  then have "rotate 1 initialize_decks \<noteq> rotate 2 initialize_decks" by metis
  then have "fst (random_shuffle counter_random (random_seed counter_random 1) initialize_decks)
      \<noteq> fst (random_shuffle counter_random (random_seed counter_random 2) initialize_decks)"
    by (simp add: counter_random_def)
  then have two: "\<exists>s1 s2. (1::int) \<le> s1 \<and> s1 \<le> 1000000 \<and> 1 \<le> s2 \<and> s2 \<le> 1000000
       \<and> fst (random_shuffle counter_random (random_seed counter_random s1) initialize_decks)
         \<noteq> fst (random_shuffle counter_random (random_seed counter_random s2) initialize_decks)"
    by (intro exI [of _ 1] exI [of _ 2]) simp
  have ne: "(5::int) \<noteq> 0" by simp
  from seed_zero_is_redrawn [where R = counter_random and q = 1 and q' = 2 and s = 5]
    len onto two ne
  show ?thesis by blast
qed

section \<open>The transitions of the circuit breaker\<close>




section \<open>Setting a cache entry\<close>

text \<open>
  Claim C7. The rows of the table have distinct keys. A call of \<open>set_cache\<close> that finds
  fewer than \<open>max_size\<close> rows deletes nothing. A call that finds at least
  \<open>max_size\<close> rows first deletes rows and then inserts or updates the entry in what is
  left: the deleted rows are \<open>max(1, max_size // 10)\<close> in number (all the rows if there
  are fewer; exactly that many when \<open>max_size\<close> is at least 1, and at least one when
  the table is not empty), the other rows are kept in their order, and no deleted row was
  accessed later than a kept one. When the data can be serialised the entry is in the
  table afterwards with the new data and times; the keys stay distinct; and the size is
  bounded: for \<open>max_size\<close> at least 1, a table of at most \<open>max_size\<close> rows has at most
  \<open>max_size\<close> rows after the call, and so has the table after any calls from the empty
  table.
\<close>

theorem set_cache_evicts_least_recently_accessed:
  assumes keys: "distinct (map cache_key t)"
  shows
  "(int (length t) < max_size \<longrightarrow>
      set_cache k dj max_size now t
        = (case dj of None \<Rightarrow> (False, t) | Some d \<Rightarrow> (True, insert_or_update k d now t)))
   \<and> (max_size \<le> int (length t) \<longrightarrow>
        (\<exists>ev kept. mset t = mset ev + mset kept
           \<and> kept = filter (\<lambda>r. r \<notin> set ev) t
           \<and> length ev = min (nat (max 1 (max_size div 10))) (length t)
           \<and> (1 \<le> max_size \<longrightarrow> int (length ev) = max 1 (max_size div 10))
           \<and> (t \<noteq> [] \<longrightarrow> 1 \<le> length ev)
           \<and> (\<forall>e \<in> set ev. \<forall>r \<in> set kept. last_accessed e \<le> last_accessed r)
           \<and> set_cache k dj max_size now t
               = (case dj of None \<Rightarrow> (False, kept)
                  | Some d \<Rightarrow> (True, insert_or_update k d now kept))))
   \<and> (\<forall>d. dj = Some d \<longrightarrow>
        (\<exists>r \<in> set (snd (set_cache k dj max_size now t)).
           cache_key r = k \<and> data r = d \<and> created_at r = now \<and> last_accessed r = now))
   \<and> distinct (map cache_key (snd (set_cache k dj max_size now t)))
   \<and> (1 \<le> max_size \<and> int (length t) \<le> max_size \<longrightarrow>
        int (length (snd (set_cache k dj max_size now t))) \<le> max_size)
   \<and> (1 \<le> max_size \<longrightarrow> int (length (set_cache_all max_size ops [])) \<le> max_size)"
proof -
  let ?n = "nat (max 1 (max_size div 10))"
  have a: "set_cache k dj max_size now t
        = (case dj of None \<Rightarrow> (False, t) | Some d \<Rightarrow> (True, insert_or_update k d now t))"
    if "int (length t) < max_size"
    using that by (simp add: set_cache_cases)
  have b: "\<exists>ev kept. mset t = mset ev + mset kept
           \<and> kept = filter (\<lambda>r. r \<notin> set ev) t
           \<and> length ev = min ?n (length t)
           \<and> (1 \<le> max_size \<longrightarrow> int (length ev) = max 1 (max_size div 10))
           \<and> (t \<noteq> [] \<longrightarrow> 1 \<le> length ev)
           \<and> (\<forall>e \<in> set ev. \<forall>r \<in> set kept. last_accessed e \<le> last_accessed r)
           \<and> set_cache k dj max_size now t
               = (case dj of None \<Rightarrow> (False, kept)
                  | Some d \<Rightarrow> (True, insert_or_update k d now kept))"
    if full: "max_size \<le> int (length t)"
  proof -
    from oldest_split [OF keys, of ?n] obtain ev where
      ev: "mset t = mset ev + mset (delete_oldest ?n t)" "length ev = min ?n (length t)"
        "\<forall>e \<in> set ev. \<forall>r \<in> set (delete_oldest ?n t). last_accessed e \<le> last_accessed r"
        and kept: "delete_oldest ?n t = filter (\<lambda>r. r \<notin> set ev) t"
      by blast
    have exact: "int (length ev) = max 1 (max_size div 10)" if "1 \<le> max_size"
    proof -
      have "max 1 (max_size div 10) \<le> max_size" using that by simp
      then have "?n \<le> length t" using full by linarith
      then show ?thesis using ev(2) by simp
    qed
    have some: "1 \<le> length ev" if "t \<noteq> []"
    proof -
      have "1 \<le> ?n" by simp
      moreover have "1 \<le> length t" using that by (simp add: Suc_le_eq)
      ultimately show ?thesis using ev(2) by simp
    qed
    have sc: "set_cache k dj max_size now t
        = (case dj of None \<Rightarrow> (False, delete_oldest ?n t)
           | Some d \<Rightarrow> (True, insert_or_update k d now (delete_oldest ?n t)))"
      using full by (simp add: set_cache_cases)
    have k2: "delete_oldest ?n t = filter (\<lambda>r. r \<notin> set ev) t" by (rule kept)
    show ?thesis
      using ev(1,2,3) exact some sc k2 by blast
  qed
  have c: "\<exists>r \<in> set (snd (set_cache k dj max_size now t)).
           cache_key r = k \<and> data r = d \<and> created_at r = now \<and> last_accessed r = now"
    if "dj = Some d" for d
    using entry_insert_or_update [of k d now] that by (simp add: set_cache_cases) blast
  have d: "distinct (map cache_key (snd (set_cache k dj max_size now t)))"
    by (rule set_cache_distinct [OF keys])
  have e: "int (length (snd (set_cache k dj max_size now t))) \<le> max_size"
    if "1 \<le> max_size" "int (length t) \<le> max_size"
    by (rule set_cache_bound [OF keys that])
  have f: "int (length (set_cache_all max_size ops [])) \<le> max_size" if "1 \<le> max_size"
    using set_cache_all_bound [OF that, of "[]" ops] that by simp
  from a b c d e f show ?thesis by blast
qed


theorem set_cache_evicts_least_recently_accessed_witness:
  "distinct (map cache_key three_rows)
   \<and> (\<exists>ev kept. mset three_rows = mset ev + mset kept
         \<and> kept = filter (\<lambda>r. r \<notin> set ev) three_rows
         \<and> int (length ev) = 1
         \<and> set_cache ''d'' (Some ''4'') 3 40 three_rows
             = (True, insert_or_update ''d'' ''4'' 40 kept))
   \<and> (\<exists>r \<in> set (snd (set_cache ''d'' (Some ''4'') 3 40 three_rows)).
         cache_key r = ''d'' \<and> data r = ''4'' \<and> created_at r = 40 \<and> last_accessed r = 40)
   \<and> distinct (map cache_key (snd (set_cache ''d'' (Some ''4'') 3 40 three_rows)))
   \<and> int (length (snd (set_cache ''d'' (Some ''4'') 3 40 three_rows))) \<le> 3
   \<and> int (length (set_cache_all 3 [(''a'', Some ''1'', 1), (''b'', None, 2)] [])) \<le> 3
   \<and> set_cache ''d'' (Some ''4'') 4 40 three_rows
       = (True, insert_or_update ''d'' ''4'' 40 three_rows)
   \<and> map cache_key (snd (set_cache ''d'' (Some ''4'') 3 40 three_rows)) = [''a'', ''b'', ''d'']"
proof -
  have keys: "distinct (map cache_key three_rows)"
    by (simp add: three_rows_def)
  have full: "3 \<le> int (length three_rows)" "int (length three_rows) \<le> 3"
    "int (length three_rows) < 4"
    by (simp_all add: three_rows_def)
  have num: "(1::int) \<le> 3" "max 1 ((3::int) div 10) = 1" by simp_all
  note thm3 = set_cache_evicts_least_recently_accessed [OF keys,
      where max_size = 3 and k = "''d''" and dj = "Some ''4''" and now = 40
        and ops = "[(''a'', Some ''1'', 1), (''b'', None, 2)]"]
  note thm4 = set_cache_evicts_least_recently_accessed [OF keys,
      where max_size = 4 and k = "''d''" and dj = "Some ''4''" and now = 40 and ops = "[]"]
  have p1: "\<exists>ev kept. mset three_rows = mset ev + mset kept
         \<and> kept = filter (\<lambda>r. r \<notin> set ev) three_rows
         \<and> int (length ev) = 1
         \<and> set_cache ''d'' (Some ''4'') 3 40 three_rows
             = (True, insert_or_update ''d'' ''4'' 40 kept)"
  proof -
    from thm3 full(1) num(1) obtain ev kept where
      e: "mset three_rows = mset ev + mset kept"
        "kept = filter (\<lambda>r. r \<notin> set ev) three_rows"
        "int (length ev) = max 1 (3 div 10)"
        "set_cache ''d'' (Some ''4'') 3 40 three_rows
           = (case Some ''4'' of None \<Rightarrow> (False, kept)
              | Some d \<Rightarrow> (True, insert_or_update ''d'' d 40 kept))"
      by blast
    from e(3) have "int (length ev) = 1" by simp
    moreover from e(4) have "set_cache ''d'' (Some ''4'') 3 40 three_rows
             = (True, insert_or_update ''d'' ''4'' 40 kept)" by simp
    ultimately show ?thesis using e(1,2) by blast
  qed
  have p2: "\<exists>r \<in> set (snd (set_cache ''d'' (Some ''4'') 3 40 three_rows)).
         cache_key r = ''d'' \<and> data r = ''4'' \<and> created_at r = 40 \<and> last_accessed r = 40"
    using thm3 by blast
  have p3: "distinct (map cache_key (snd (set_cache ''d'' (Some ''4'') 3 40 three_rows)))"
    using thm3 by blast
  have p4: "int (length (snd (set_cache ''d'' (Some ''4'') 3 40 three_rows))) \<le> 3"
    using thm3 full(2) num(1) by blast
  have p5: "int (length (set_cache_all 3 [(''a'', Some ''1'', 1), (''b'', None, 2)] [])) \<le> 3"
    using thm3 num(1) by blast
  have p6: "set_cache ''d'' (Some ''4'') 4 40 three_rows
       = (True, insert_or_update ''d'' ''4'' 40 three_rows)"
  proof -
    from thm4 full(3) have "set_cache ''d'' (Some ''4'') 4 40 three_rows
        = (case Some ''4'' of None \<Rightarrow> (False, three_rows)
           | Some d \<Rightarrow> (True, insert_or_update ''d'' d 40 three_rows))" by blast
    then show ?thesis by simp
  qed
  have p7: "map cache_key (snd (set_cache ''d'' (Some ''4'') 3 40 three_rows)) = [''a'', ''b'', ''d'']"
    by (simp add: set_cache_def three_rows_def delete_oldest_def selected_keys_def
        insert_or_update_def Let_def)
  from keys p1 p2 p3 p4 p5 p6 p7 show ?thesis by blast
qed

end
